theory Spec2Isabelle
  imports
    Main
    "HOL-Library.Word"
    "HOL-Library.Char_ord"
    "HOL-Library.List_Lexorder"
    "HOL-Library.AList"
begin

unbundle bit_operations_syntax

section \<open>Strings and numbers of the host language\<close>

text \<open>
  A JavaScript string is a sequence of UTF-16 code units. It is modelled as a \<open>string\<close>,
  every \<open>char\<close> standing for the code unit of the same number, so the model covers the
  strings over the code units 0 to 255. The comparison \<open>a > b\<close> of two JavaScript strings
  is the lexicographic order of their code units, which is the order of \<open>string\<close> given
  by the char order and the lexicographic list order.

  The program never computes with the numbers found in a style: it tests them for
  truthiness and renders them into a template string. A number is therefore represented
  by the text that the language's number-to-string conversion gives for it
  (\<open>10\<close>, \<open>0.5\<close>, \<open>-1\<close>, \<open>NaN\<close>, \<open>Infinity\<close>). Both zeros render as \<open>0\<close>, and the
  numbers that convert to false are the zeros and NaN.
\<close>

datatype number = Number (numberToString: string)

definition numberToBoolean :: "number \<Rightarrow> bool" where
  "numberToBoolean n = (numberToString n \<noteq> ''0'' \<and> numberToString n \<noteq> ''NaN'')"

text \<open>\<open>export type PropertyValue = number | boolean | string\<close>\<close>

datatype PropertyValue = VNumber number | VBoolean bool | VString string

fun toBoolean :: "PropertyValue \<Rightarrow> bool" where
  "toBoolean (VNumber n) = numberToBoolean n"
| "toBoolean (VBoolean b) = b"
| "toBoolean (VString s) = (s \<noteq> [])"

fun toString :: "PropertyValue \<Rightarrow> string" where
  "toString (VNumber n) = numberToString n"
| "toString (VBoolean b) = (if b then ''true'' else ''false'')"
| "toString (VString s) = s"

fun isNumber :: "PropertyValue \<Rightarrow> bool" where
  "isNumber (VNumber n) = True"
| "isNumber (VBoolean b) = False"
| "isNumber (VString s) = False"

text \<open>\<open>Array.prototype.join\<close> on an array of strings.\<close>

fun joinWith :: "string \<Rightarrow> string list \<Rightarrow> string" where
  "joinWith sep [] = []"
| "joinWith sep [x] = x"
| "joinWith sep (x # y # ys) = x @ sep @ joinWith sep (y # ys)"

text \<open>\<open>Array.prototype.indexOf\<close>: the first index of the element, or -1.\<close>

fun indexOf :: "'a list \<Rightarrow> 'a \<Rightarrow> int" where
  "indexOf [] k = -1"
| "indexOf (x # xs) k =
     (if x = k then 0 else (let i = indexOf xs k in if i < 0 then -1 else i + 1))"

text \<open>
  \<open>Array.prototype.splice(index, 1, ...items)\<close> as the program calls it: one element is
  deleted at \<open>index\<close> and \<open>items\<close> (none, or one) are put in its place. A negative index
  counts from the end of the array and is clamped at 0; an index beyond the end is
  clamped to the length.
\<close>

definition splice1 :: "'a list \<Rightarrow> int \<Rightarrow> 'a list \<Rightarrow> 'a list" where
  "splice1 xs index items =
     (let len = int (length xs);
          start = nat (if index < 0 then max (len + index) 0 else min index len)
      in take start xs @ items @ drop (Suc start) xs)"

text \<open>\<open>Number.prototype.toString(36)\<close> on a non-negative integer.\<close>

definition digit36 :: "nat \<Rightarrow> char" where
  "digit36 d = ''0123456789abcdefghijklmnopqrstuvwxyz'' ! d"

function toString36 :: "nat \<Rightarrow> string" where
  "toString36 n = (if n < 36 then [digit36 n] else toString36 (n div 36) @ [digit36 (n mod 36)])"
  by pat_completeness auto
termination
  by (relation "measure id") auto

declare toString36.simps [simp del]

text \<open>
  \<open>String.prototype.trim\<close>: the white space and line terminators among the code units
  0 to 255 are TAB, LF, VT, FF, CR, SP and NBSP.
\<close>

definition isWhiteSpace :: "char \<Rightarrow> bool" where
  "isWhiteSpace c = (of_char c \<in> {9, 10, 11, 12, 13, 32, 160 :: nat})"

definition trim :: "string \<Rightarrow> string" where
  "trim s = rev (dropWhile isWhiteSpace (rev (dropWhile isWhiteSpace s)))"

section \<open>Unit-less properties\<close>

definition CSS_NUMBER_KEYS :: "string list" where
  "CSS_NUMBER_KEYS = [
    ''animation-iteration-count'',
    ''border-image-outset'',
    ''border-image-slice'',
    ''border-image-width'',
    ''box-flex'',
    ''box-flex-group'',
    ''box-ordinal-group'',
    ''column-count'',
    ''columns'',
    ''counter-increment'',
    ''counter-reset'',
    ''flex'',
    ''flex-grow'',
    ''flex-positive'',
    ''flex-shrink'',
    ''flex-negative'',
    ''flex-order'',
    ''font-weight'',
    ''grid-area'',
    ''grid-column'',
    ''grid-column-end'',
    ''grid-column-span'',
    ''grid-column-start'',
    ''grid-row'',
    ''grid-row-end'',
    ''grid-row-span'',
    ''grid-row-start'',
    ''line-clamp'',
    ''line-height'',
    ''opacity'',
    ''order'',
    ''orphans'',
    ''tab-size'',
    ''widows'',
    ''z-index'',
    ''zoom'',
    ''fill-opacity'',
    ''flood-opacity'',
    ''stop-opacity'',
    ''stroke-dasharray'',
    ''stroke-dashoffset'',
    ''stroke-miterlimit'',
    ''stroke-opacity'',
    ''stroke-width'']"

definition VENDOR_PREFIXES :: "string list" where
  "VENDOR_PREFIXES = [''-webkit-'', ''-ms-'', ''-moz-'', ''-o-'', '''']"

text \<open>
  The dictionary \<open>CSS_NUMBER\<close> holds \<open>true\<close> under every key that the two loops at module
  load write, and nothing else; it is modelled by the list of those keys.
\<close>

definition CSS_NUMBER :: "string list" where
  "CSS_NUMBER =
     concat (map (\<lambda>property. map (\<lambda>prefix. prefix @ property) VENDOR_PREFIXES) CSS_NUMBER_KEYS)"

section \<open>Pure helpers\<close>

text \<open>\<open>escape\<close>: a backslash before every character of the class in the regular expression.\<close>

definition escapeChars :: "char list" where
  "escapeChars =
     [CHR '' '', CHR ''!'', CHR ''#'', CHR ''$'', CHR ''%'', CHR ''&'', CHR ''('', CHR '')'',
      CHR ''*'', CHR ''+'', CHR '','', CHR ''.'', CHR ''/'', CHR '';'', CHR ''<'', CHR ''='',
      CHR ''>'', CHR ''?'', CHR ''@'', CHR ''['', CHR '']'', CHR ''^'', CHR 0x60, CHR ''{'',
      CHR ''|'', CHR ''}'', CHR ''~'', CHR 0x22, CHR 0x27, CHR 0x5C]"

definition escape :: "string \<Rightarrow> string" where
  "escape str = concat (map (\<lambda>c. if c \<in> set escapeChars then [CHR 0x5C, c] else [c]) str)"

definition isUpper :: "char \<Rightarrow> bool" where
  "isUpper c = (65 \<le> (of_char c :: nat) \<and> (of_char c :: nat) \<le> 90)"

definition toLowerCase :: "char \<Rightarrow> char" where
  "toLowerCase c = (if isUpper c then char_of (of_char c + 32 :: nat) else c)"

definition hyphenate :: "string \<Rightarrow> string" where
  "hyphenate propertyName =
     (let s = concat (map (\<lambda>m. if isUpper m then [CHR ''-'', toLowerCase m] else [m]) propertyName)
      in if take 3 s = ''ms-'' then ''-ms-'' @ drop 3 s else s)"

text \<open>
  \<open>stringHash\<close>: the loop runs from the last code unit to the first. Every value of
  the variable \<open>value\<close> (here \<open>hash\<close>) is a 32-bit integer (the result of \<open>^\<close>), its product with 33 is exact in a
  double, and \<open>^\<close> reduces it modulo \<open>2^32\<close>, so the loop is arithmetic on 32-bit words;
  \<open>>>> 0\<close> reads the result as unsigned.
\<close>

definition stringHash :: "string \<Rightarrow> string" where
  "stringHash str =
     toString36 (unat (fold (\<lambda>c (hash :: 32 word). (hash * 33) XOR of_nat (of_char c))
                        (rev str) 5381))"

text \<open>\<open>styleToString\<close>\<close>

definition styleToString :: "string \<Rightarrow> PropertyValue \<Rightarrow> string" where
  "styleToString key v =
     (if toBoolean v \<and> isNumber v \<and> key \<notin> set CSS_NUMBER
      then key @ '':'' @ toString v @ ''px''
      else key @ '':'' @ toString v)"

text \<open>
  \<open>sortTuples\<close>: \<open>Array.prototype.sort\<close> with the comparator \<open>a[0] > b[0] ? 1 : -1\<close>, which
  never answers 0. On tuples with pairwise distinct first components the comparator is a
  strict total order and every sorting algorithm returns the one ascending list
  (\<open>sortTuples_unique\<close> below). On equal first components the comparator is not
  consistent and the language leaves the resulting order to the engine; the model is an
  insertion sort driven by the comparator, which puts a tuple before the first one that
  the comparator does not rank below it.
\<close>

definition compareTuples :: "string \<times> 'a \<Rightarrow> string \<times> 'a \<Rightarrow> int" where
  "compareTuples a b = (if fst a > fst b then 1 else -1)"

fun insertTuple :: "string \<times> 'a \<Rightarrow> (string \<times> 'a) list \<Rightarrow> (string \<times> 'a) list" where
  "insertTuple a [] = [a]"
| "insertTuple a (b # bs) =
     (if compareTuples a b > 0 then b # insertTuple a bs else a # b # bs)"

definition sortTuples :: "(string \<times> 'a) list \<Rightarrow> (string \<times> 'a) list" where
  "sortTuples xs = foldl (\<lambda>sorted a. insertTuple a sorted) [] xs"

section \<open>Input styles\<close>

text \<open>
  The \<open>Styles\<close> object: its own keys in the order of \<open>Object.keys\<close>, each with its value,
  which is \<open>null\<close> or \<open>undefined\<close> (\<open>Null\<close>), a property value, an array of property
  values or a nested \<open>Styles\<close> object. The keys of an object are pairwise distinct.
\<close>

datatype StyleValue =
    Null
  | Scalar PropertyValue
  | Array "PropertyValue list"
  | Object "(string \<times> StyleValue) list"

type_synonym Styles = "(string \<times> StyleValue) list"

text \<open>Truthiness and template-string rendering of any value (objects and arrays are truthy).\<close>

fun valueToBoolean :: "StyleValue \<Rightarrow> bool" where
  "valueToBoolean Null = False"
| "valueToBoolean (Scalar v) = toBoolean v"
| "valueToBoolean (Array vs) = True"
| "valueToBoolean (Object styles) = True"

fun valueToString :: "StyleValue \<Rightarrow> string" where
  "valueToString Null = ''undefined''"
| "valueToString (Scalar v) = toString v"
| "valueToString (Array vs) = joinWith '','' (map toString vs)"
| "valueToString (Object styles) = ''[object Object]''"

text \<open>\<open>styles[key]\<close>: \<open>undefined\<close> when the object has no such key.\<close>

definition getProperty :: "Styles \<Rightarrow> string \<Rightarrow> StyleValue" where
  "getProperty styles key = (case map_of styles key of None \<Rightarrow> Null | Some v \<Rightarrow> v)"

section \<open>Categorising user styles\<close>

record ParsedStyles =
  p_style :: string
  p_nested :: "(string \<times> Styles) list"
  p_isUnique :: bool

text \<open>\<open>stringifyProperties\<close>: a property tuple holds a property value or an array of them.\<close>

definition stringifyProperties :: "(string \<times> (PropertyValue + PropertyValue list)) list \<Rightarrow> string" where
  "stringifyProperties properties =
     joinWith '';''
       (map (\<lambda>(name, v). case v of
                 Inl x \<Rightarrow> styleToString name x
               | Inr xs \<Rightarrow> joinWith '';'' (map (\<lambda>x. styleToString name x) xs))
            properties)"

text \<open>\<open>name.charCodeAt(0) !== 36\<close>; the code of an empty name is NaN.\<close>

definition notDollar :: "string \<Rightarrow> bool" where
  "notDollar name = (case name of [] \<Rightarrow> True | c # cs \<Rightarrow> c \<noteq> CHR ''$'')"

text \<open>The loop of \<open>parseStyles\<close> over \<open>Object.keys(styles)\<close>, pushing onto the two arrays.\<close>

fun parseStylesLoop ::
  "Styles \<Rightarrow> (string \<times> (PropertyValue + PropertyValue list)) list \<Rightarrow> (string \<times> Styles) list \<Rightarrow>
   (string \<times> (PropertyValue + PropertyValue list)) list \<times> (string \<times> Styles) list" where
  "parseStylesLoop [] properties nestedStyles = (properties, nestedStyles)"
| "parseStylesLoop ((key, v) # rest) properties nestedStyles =
     (let name = trim key in
      if notDollar name then
        (case v of
           Null \<Rightarrow> parseStylesLoop rest properties nestedStyles
         | Object styles \<Rightarrow> parseStylesLoop rest properties (nestedStyles @ [(name, styles)])
         | Scalar x \<Rightarrow> parseStylesLoop rest (properties @ [(hyphenate name, Inl x)]) nestedStyles
         | Array xs \<Rightarrow> parseStylesLoop rest (properties @ [(hyphenate name, Inr xs)]) nestedStyles)
      else parseStylesLoop rest properties nestedStyles)"

definition parseStyles :: "Styles \<Rightarrow> bool \<Rightarrow> ParsedStyles" where
  "parseStyles styles hasNestedStyles =
     (let (properties, nestedStyles) = parseStylesLoop styles [] [] in
      \<lparr> p_style = stringifyProperties (sortTuples properties),
        p_nested = (if hasNestedStyles then nestedStyles else sortTuples nestedStyles),
        p_isUnique = valueToBoolean (getProperty styles ''$unique'') \<rparr>)"

text \<open>
  The replacement text of \<open>String.prototype.replace\<close> for one match of a pattern without
  capture groups (\<open>GetSubstitution\<close>): in the replacement string \<open>$$\<close> stands for a
  dollar sign, \<open>$&\<close> for the matched text, \<open>$`\<close> for the text before the match and
  \<open>$'\<close> for the text after it; every other character, a dollar sign before anything
  else included (\<open>$1\<close> and \<open>$<\<close> have nothing to refer to), stands for itself.
\<close>

fun getSubstitution :: "string \<Rightarrow> string \<Rightarrow> string \<Rightarrow> string \<Rightarrow> string" where
  "getSubstitution matched front behind [] = []"
| "getSubstitution matched front behind [c] = [c]"
| "getSubstitution matched front behind (c # d # replacement) =
     (if c = CHR ''$'' then
        (if d = CHR ''$'' then CHR ''$'' # getSubstitution matched front behind replacement
         else if d = CHR ''&'' then matched @ getSubstitution matched front behind replacement
         else if d = CHR 0x60 then front @ getSubstitution matched front behind replacement
         else if d = CHR 0x27 then behind @ getSubstitution matched front behind replacement
         else c # getSubstitution matched front behind (d # replacement))
      else c # getSubstitution matched front behind (d # replacement))"

text \<open>
  \<open>selector.replace(/&/g, parent)\<close>: every \<open>&\<close> of the selector is replaced by the
  replacement text that \<open>parent\<close> gives at that match; \<open>front\<close> is the part of the
  selector in front of the current character.
\<close>

fun replaceAmp :: "string \<Rightarrow> string \<Rightarrow> string \<Rightarrow> string" where
  "replaceAmp front [] parent = []"
| "replaceAmp front (c # behind) parent =
     (if c = CHR ''&''
      then getSubstitution ''&'' front behind parent @ replaceAmp (front @ [c]) behind parent
      else c # replaceAmp (front @ [c]) behind parent)"

text \<open>\<open>interpolate\<close>\<close>

definition interpolate :: "string \<Rightarrow> string \<Rightarrow> string" where
  "interpolate selector parent =
     (if CHR ''&'' \<notin> set selector then parent @ '' '' @ selector
      else replaceAmp [] selector parent)"

section \<open>Flattening a style tree\<close>

record StylizeStyle =
  ss_selector :: string
  ss_style :: string
  ss_isUnique :: bool

datatype StylizeRule =
  StylizeRule (sr_selector: string) (sr_style: string)
    (sr_rules: "StylizeRule list") (sr_styles: "StylizeStyle list")

text \<open>\<open>selector.charCodeAt(0) === 64\<close>\<close>

definition isAtRule :: "string \<Rightarrow> bool" where
  "isAtRule selector = (case selector of [] \<Rightarrow> False | c # cs \<Rightarrow> c = CHR ''@'')"

text \<open>
  The optional \<open>parent\<close> is only ever tested for truthiness before it is used, so an
  absent parent and the empty string behave alike: \<open>truthyParent\<close> gives the parent
  text when the test \<open>parent ? ... : ...\<close> succeeds.
\<close>

definition truthyParent :: "string option \<Rightarrow> string option" where
  "truthyParent parent = (case parent of None \<Rightarrow> None | Some p \<Rightarrow> if p = [] then None else Some p)"

text \<open>What the loop pushes for one key, and for all of them.\<close>

fun propertyOf :: "string \<times> StyleValue \<Rightarrow> (string \<times> (PropertyValue + PropertyValue list)) list" where
  "propertyOf (key, Scalar x) =
     (if notDollar (trim key) then [(hyphenate (trim key), Inl x)] else [])"
| "propertyOf (key, Array xs) =
     (if notDollar (trim key) then [(hyphenate (trim key), Inr xs)] else [])"
| "propertyOf (key, Null) = []"
| "propertyOf (key, Object styles) = []"

fun nestedOf :: "string \<times> StyleValue \<Rightarrow> (string \<times> Styles) list" where
  "nestedOf (key, Object styles) = (if notDollar (trim key) then [(trim key, styles)] else [])"
| "nestedOf (key, Null) = []"
| "nestedOf (key, Scalar x) = []"
| "nestedOf (key, Array xs) = []"

lemma parseStylesLoop_eq:
  "parseStylesLoop styles properties nestedStyles =
     (properties @ concat (map propertyOf styles), nestedStyles @ concat (map nestedOf styles))"
proof (induction styles arbitrary: properties nestedStyles)
  case Nil
  then show ?case by simp
next
  case (Cons entry styles)
  obtain key v where entry: "entry = (key, v)" by (cases entry)
  show ?case
    unfolding entry
    by (cases v) (simp_all add: Cons.IH Let_def)
qed

lemma nestedOf_size:
  "(name, v) \<in> set (concat (map nestedOf styles)) \<Longrightarrow> size (Object v) < size (Object styles)"
proof (induction styles)
  case Nil
  then show ?case by simp
next
  case (Cons entry styles)
  obtain key w where entry: "entry = (key, w)" by (cases entry)
  from Cons.prems have "(name, v) \<in> set (nestedOf entry) \<or> (name, v) \<in> set (concat (map nestedOf styles))"
    by auto
  then show ?case
  proof
    assume a: "(name, v) \<in> set (nestedOf entry)"
    have "(name, v) \<in> set (nestedOf (key, w)) \<Longrightarrow> w = Object v"
      by (cases w) (simp_all split: if_splits)
    with a have "w = Object v" by (simp add: entry)
    then show ?thesis by (simp add: entry)
  next
    assume "(name, v) \<in> set (concat (map nestedOf styles))"
    then have "size (Object v) < size (Object styles)" by (rule Cons.IH)
    then show ?thesis by simp
  qed
qed

lemma set_insertTuple: "set (insertTuple a xs) = insert a (set xs)"
  by (induction xs) auto

lemma set_sortTuples_aux: "set (foldl (\<lambda>sorted a. insertTuple a sorted) acc xs) = set acc \<union> set xs"
  by (induction xs arbitrary: acc) (auto simp: set_insertTuple)

lemma set_sortTuples: "set (sortTuples xs) = set xs"
  by (simp add: sortTuples_def set_sortTuples_aux)

lemma parseStyles_nested_size:
  "(name, v) \<in> set (p_nested (parseStyles styles h)) \<Longrightarrow>
   size (Object v) < size (Object styles)"
  using nestedOf_size [of name v styles]
  by (auto simp: parseStyles_def parseStylesLoop_eq set_sortTuples split: if_splits)

text \<open>
  \<open>stylize\<close>. The two arrays that the source fills in place are passed in and returned
  together with the fingerprint. In the at-rule branch the new \<open>child\<close> is pushed on
  \<open>rulesList\<close> first and its own two arrays are filled afterwards; nothing else is pushed
  on \<open>rulesList\<close> in between, so the model appends the finished child.
\<close>

function stylize ::
  "string \<Rightarrow> Styles \<Rightarrow> StylizeRule list \<Rightarrow> StylizeStyle list \<Rightarrow> string option \<Rightarrow>
   string \<times> StylizeRule list \<times> StylizeStyle list" where
  "stylize selector styles rulesList stylesList parent =
     (let parsed = parseStyles styles (selector \<noteq> []);
          style = p_style parsed;
          nested = p_nested parsed;
          isUnique = p_isUnique parsed
      in
      if isAtRule selector then
        (let childStyles =
               (case truthyParent parent of
                  Some p \<Rightarrow>
                    if style \<noteq> []
                    then [\<lparr> ss_selector = p, ss_style = style, ss_isUnique = isUnique \<rparr>]
                    else []
                | None \<Rightarrow> []);
             (pid, rules, styles') =
               fold (\<lambda>entry (pid, rules, styles').
                       (let (r, rules2, styles2) = stylize (fst entry) (snd entry) rules styles' parent
                        in (pid @ fst entry @ r, rules2, styles2)))
                    nested (style, [], childStyles)
         in (pid,
             rulesList @
               [StylizeRule selector
                  (case truthyParent parent of Some p \<Rightarrow> [] | None \<Rightarrow> style) rules styles'],
             stylesList))
      else
        (let key = (case truthyParent parent of
                      Some p \<Rightarrow> interpolate selector p
                    | None \<Rightarrow> selector);
             stylesList1 =
               (if style \<noteq> []
                then stylesList @ [\<lparr> ss_selector = key, ss_style = style, ss_isUnique = isUnique \<rparr>]
                else stylesList)
         in fold (\<lambda>entry (pid, rules, styles').
                    (let (r, rules2, styles2) = stylize (fst entry) (snd entry) rules styles' (Some key)
                     in (pid @ fst entry @ r, rules2, styles2)))
                 nested (style, rulesList, stylesList1)))"
  by pat_completeness auto
termination
  apply (relation "measure (\<lambda>(selector, styles, rulesList, stylesList, parent).
                              size (Object styles))")
  apply simp
  apply (auto dest: parseStyles_nested_size)
  done

declare stylize.simps [simp del]

section \<open>The cache\<close>

datatype 'n cache =
  Cache (sheet: "string list") (changeId: nat) (keys: "string list")
    (children: "(string \<times> 'n) list") (counters: "(string \<times> nat) list")

datatype node =
    Selector string string
  | Style string string "node cache"
  | Rule string string string "node cache"

datatype event =
    AddEvent node int
  | ChangeEvent node int int
  | RemoveEvent node int

definition emptyCache :: "'n cache" where
  "emptyCache = Cache [] 0 [] [] []"

fun nodeId :: "node \<Rightarrow> string" where
  "nodeId (Selector selector ident) = ident"
| "nodeId (Style style ident c) = ident"
| "nodeId (Rule rule style ident c) = ident"

fun getStyles :: "node \<Rightarrow> string" where
  "getStyles (Selector selector ident) = selector"
| "getStyles (Style style ident c) = joinWith '','' (sheet c) @ ''{'' @ style @ ''}''"
| "getStyles (Rule rule style ident c) = rule @ ''{'' @ style @ concat (sheet c) @ ''}''"

fun cacheOf :: "node \<Rightarrow> node cache option" where
  "cacheOf (Selector selector ident) = None"
| "cacheOf (Style style ident c) = Some c"
| "cacheOf (Rule rule style ident c) = Some c"

fun setCache :: "node \<Rightarrow> node cache \<Rightarrow> node" where
  "setCache (Selector selector ident) c = Selector selector ident"
| "setCache (Style style ident c0) c = Style style ident c"
| "setCache (Rule rule style ident c0) c = Rule rule style ident c"

definition values_of :: "'n cache \<Rightarrow> 'n option list" where
  "values_of c = map (map_of (children c)) (keys c)"

lemma alist_entry_size:
  "(k, item) \<in> set xs \<Longrightarrow> size item < Suc (size_list (size_prod (\<lambda>x. 0) size) xs)"
  by (induction xs) auto

lemma values_of_size:
  assumes "Some item \<in> set (values_of c)"
  shows "size item < size_cache size c"
proof -
  from assms obtain k where "map_of (children c) k = Some item"
    by (auto simp: values_of_def)
  then have "(k, item) \<in> set (children c)" by (rule map_of_SomeD)
  then have "size item < Suc (size_list (size_prod (\<lambda>x. 0) size) (children c))"
    by (rule alist_entry_size)
  then show ?thesis by (cases c) simp
qed

lemma cacheOf_size: "cacheOf n = Some c \<Longrightarrow> size_cache size c < size n"
  by (cases n) auto

text \<open>\<open>this._counters[style.id] || 0\<close>\<close>

definition countOf :: "'n cache \<Rightarrow> string \<Rightarrow> nat" where
  "countOf c k = (case map_of (counters c) k of None \<Rightarrow> 0 | Some n \<Rightarrow> n)"

function add :: "node cache \<Rightarrow> node \<Rightarrow> (node cache \<times> event list) option"
  and addItem :: "node cache \<Rightarrow> node \<Rightarrow> node \<Rightarrow> bool \<Rightarrow> (node cache \<times> event list) option"
  and merge :: "node cache \<Rightarrow> node cache \<Rightarrow> (node cache \<times> event list) option"
  and clone :: "node \<Rightarrow> node option" where
  "add c style =
     (case map_of (children c) (nodeId style) of
        Some item \<Rightarrow> addItem c style item True
      | None \<Rightarrow> (case clone style of None \<Rightarrow> None | Some item \<Rightarrow> addItem c style item False))"
| "addItem c style item stored =
     (let count = countOf c (nodeId style);
          counters1 = AList.update (nodeId style) (count + 1) (counters c)
      in
      if count = 0 then
        (let children1 = AList.update (nodeId item) item (children c);
             keys1 = keys c @ [nodeId item]
         in Some (Cache (sheet c @ [getStyles item]) (changeId c + 1) keys1 children1 counters1,
                  [AddEvent item (int (length keys1) - 1)]))
      else
        (case cacheOf item of
           None \<Rightarrow> Some (Cache (sheet c) (changeId c) (keys c) (children c) counters1, [])
         | Some ic \<Rightarrow>
             (case cacheOf style of
                None \<Rightarrow> Some (Cache (sheet c) (changeId c) (keys c) (children c) counters1, [])
              | Some sc \<Rightarrow>
                  (let curIndex = indexOf (keys c) (nodeId style) in
                   case merge ic sc of
                     None \<Rightarrow> None
                   | Some (ic1, evs) \<Rightarrow>
                       (let item1 = setCache item ic1;
                            children1 = (if stored
                                         then AList.update (nodeId style) item1 (children c)
                                         else children c)
                        in if changeId ic1 \<noteq> changeId ic
                           then Some (Cache (splice1 (sheet c) curIndex [getStyles item1])
                                        (changeId c + 1) (keys c) children1 counters1,
                                      [ChangeEvent item1 curIndex curIndex])
                           else Some (Cache (sheet c) (changeId c) (keys c) children1 counters1,
                                      []))))))"
| "merge this other =
     fold (\<lambda>item acc.
             case acc of
               None \<Rightarrow> None
             | Some (c, evs) \<Rightarrow>
                 (case item of
                    None \<Rightarrow> None
                  | Some it \<Rightarrow>
                      (case add c it of
                         None \<Rightarrow> None
                       | Some (c1, evs1) \<Rightarrow> Some (c1, evs @ evs1))))
          (values_of other) (Some (this, []))"
| "clone (Selector selector ident) = Some (Selector selector ident)"
| "clone (Style style ident c) =
     (case merge emptyCache c of None \<Rightarrow> None | Some (c1, evs) \<Rightarrow> Some (Style style ident c1))"
| "clone (Rule rule style ident c) =
     (case merge emptyCache c of None \<Rightarrow> None | Some (c1, evs) \<Rightarrow> Some (Rule rule style ident c1))"
  by pat_completeness auto
termination
  apply (relation "measure (\<lambda>x. case x of
            Inl (Inl (c, style)) \<Rightarrow> 2 * size style + 2
          | Inl (Inr (c, style, item, stored)) \<Rightarrow> 2 * size style + 1
          | Inr (Inl (this, other)) \<Rightarrow> 2 * size_cache size other + 1
          | Inr (Inr n) \<Rightarrow> 2 * size n + 1)")
  apply (auto dest: values_of_size cacheOf_size)
  done


function remove :: "node cache \<Rightarrow> node \<Rightarrow> (node cache \<times> event list) option"
  and unmerge :: "node cache \<Rightarrow> node cache \<Rightarrow> (node cache \<times> event list) option" where
  "remove c style =
     (let count = countOf c (nodeId style) in
      if count = 0 then Some (c, [])
      else
        (case map_of (children c) (nodeId style) of
           None \<Rightarrow> None
         | Some item \<Rightarrow>
             (let index = indexOf (keys c) (nodeId item) in
              if count = 1 then
                Some (Cache (splice1 (sheet c) index []) (changeId c + 1)
                        (splice1 (keys c) index [])
                        (AList.delete (nodeId style) (children c))
                        (AList.delete (nodeId style) (counters c)),
                      [RemoveEvent item index])
              else
                (let counters1 = AList.update (nodeId style) (count - 1) (counters c) in
                 case cacheOf item of
                   None \<Rightarrow> Some (Cache (sheet c) (changeId c) (keys c) (children c) counters1, [])
                 | Some ic \<Rightarrow>
                     (case cacheOf style of
                        None \<Rightarrow>
                          Some (Cache (sheet c) (changeId c) (keys c) (children c) counters1, [])
                      | Some sc \<Rightarrow>
                          (case unmerge ic sc of
                             None \<Rightarrow> None
                           | Some (ic1, evs) \<Rightarrow>
                               (let item1 = setCache item ic1;
                                    children1 = AList.update (nodeId style) item1 (children c)
                                in if changeId ic1 \<noteq> changeId ic
                                   then Some (Cache (splice1 (sheet c) index [getStyles item1])
                                                (changeId c + 1) (keys c) children1 counters1,
                                              [ChangeEvent item1 index index])
                                   else Some (Cache (sheet c) (changeId c) (keys c) children1
                                                counters1,
                                              []))))))))"
| "unmerge this other =
     fold (\<lambda>item acc.
             case acc of
               None \<Rightarrow> None
             | Some (c, evs) \<Rightarrow>
                 (case item of
                    None \<Rightarrow> None
                  | Some it \<Rightarrow>
                      (case remove c it of
                         None \<Rightarrow> None
                       | Some (c1, evs1) \<Rightarrow> Some (c1, evs @ evs1))))
          (values_of other) (Some (this, []))"
  by pat_completeness auto
termination
  apply (relation "measure (\<lambda>x. case x of
            Inl (c, style) \<Rightarrow> 2 * size style
          | Inr (this, other) \<Rightarrow> 2 * size_cache size other + 1)")
  apply (auto dest: values_of_size cacheOf_size)
  done

declare add.simps [simp del] addItem.simps [simp del] merge.simps [simp del]
  remove.simps [simp del] unmerge.simps [simp del]

section \<open>Building cache nodes from the flattened tree\<close>

definition NUL :: string where
  "NUL = [CHR 0x00]"

function composeStyles ::
    "nat \<Rightarrow> node cache \<Rightarrow> string \<Rightarrow> StylizeStyle list \<Rightarrow> string \<Rightarrow> bool \<Rightarrow>
     (nat \<times> node cache \<times> event list) option" where
  "composeStyles uniqueId c pid [] className isStyle = Some (uniqueId, c, [])"
| "composeStyles uniqueId c pid (s # stylesList) className isStyle =
     (let k = (if isStyle then interpolate (ss_selector s) className else ss_selector s);
          uniqueId1 = (if ss_isUnique s then uniqueId + 1 else uniqueId);
          ident = (if ss_isUnique s then ''u'' @ NUL @ toString36 uniqueId1
                   else ''s'' @ NUL @ pid @ NUL @ ss_style s)
      in case add emptyCache (Selector k (''k'' @ NUL @ pid @ NUL @ k)) of
           None \<Rightarrow> None
         | Some (ic, evs0) \<Rightarrow>
             (case add c (Style (ss_style s) ident ic) of
                None \<Rightarrow> None
              | Some (c1, evs1) \<Rightarrow>
                  (case composeStyles uniqueId1 c1 pid stylesList className isStyle of
                     None \<Rightarrow> None
                   | Some (uniqueId2, c2, evs2) \<Rightarrow> Some (uniqueId2, c2, evs1 @ evs2))))"
  by pat_completeness auto
termination
  by (relation "measure (\<lambda>(uniqueId, c, pid, stylesList, className, isStyle). length stylesList)") auto

function composeStylize ::
    "nat \<Rightarrow> node cache \<Rightarrow> string \<Rightarrow> StylizeRule list \<Rightarrow> StylizeStyle list \<Rightarrow> string \<Rightarrow> bool \<Rightarrow>
     (nat \<times> node cache \<times> event list) option"
  and composeRules ::
    "nat \<Rightarrow> node cache \<Rightarrow> string \<Rightarrow> StylizeRule list \<Rightarrow> string \<Rightarrow> bool \<Rightarrow>
     (nat \<times> node cache \<times> event list) option" where
  "composeStylize uniqueId c pid rulesList stylesList className isStyle =
     (case composeStyles uniqueId c pid stylesList className isStyle of
        None \<Rightarrow> None
      | Some (uniqueId1, c1, evs1) \<Rightarrow>
          (case composeRules uniqueId1 c1 pid rulesList className isStyle of
             None \<Rightarrow> None
           | Some (uniqueId2, c2, evs2) \<Rightarrow> Some (uniqueId2, c2, evs1 @ evs2)))"
| "composeRules uniqueId c pid [] className isStyle = Some (uniqueId, c, [])"
| "composeRules uniqueId c pid (r # rulesList) className isStyle =
     (let ident = ''r'' @ NUL @ pid @ NUL @ sr_selector r @ NUL @ sr_style r in
      case composeStylize uniqueId emptyCache pid (sr_rules r) (sr_styles r) className isStyle of
        None \<Rightarrow> None
      | Some (uniqueId1, ic, evs0) \<Rightarrow>
          (case add c (Rule (sr_selector r) (sr_style r) ident ic) of
             None \<Rightarrow> None
           | Some (c1, evs1) \<Rightarrow>
               (case composeRules uniqueId1 c1 pid rulesList className isStyle of
                  None \<Rightarrow> None
                | Some (uniqueId2, c2, evs2) \<Rightarrow> Some (uniqueId2, c2, evs1 @ evs2))))"
  by pat_completeness auto
termination
  apply (relation "measure (\<lambda>x. case x of
            Inl (uniqueId, c, pid, rulesList, stylesList, className, isStyle) \<Rightarrow>
              size_list size rulesList + 1
          | Inr (uniqueId, c, pid, rulesList, className, isStyle) \<Rightarrow> size_list size rulesList)")
  apply auto
  subgoal for r by (cases r) auto
  done

section \<open>The FreeStyle instance\<close>

record FreeStyle =
  fs_id :: string
  fs_cache :: "node cache"
  fs_changes :: "event list"

definition key :: "bool \<Rightarrow> string \<Rightarrow> Styles \<Rightarrow> string" where
  "key production pid styles =
     (let k = ''f'' @ stringHash pid;
          displayName = getProperty styles ''$displayName''
      in if production \<or> \<not> valueToBoolean displayName then k
         else valueToString displayName @ ''_'' @ k)"

definition registerStyle ::
    "bool \<Rightarrow> nat \<Rightarrow> FreeStyle \<Rightarrow> Styles \<Rightarrow> (string \<times> nat \<times> FreeStyle) option" where
  "registerStyle production uniqueId fs styles =
     (let (pid, rulesList, stylesList) = stylize ''&'' styles [] [] None;
          ident = key production pid styles;
          selector = ''.'' @ (if production then ident else escape ident)
      in case composeStylize uniqueId (fs_cache fs) pid rulesList stylesList selector True of
           None \<Rightarrow> None
         | Some (uniqueId1, c, evs) \<Rightarrow>
             Some (ident, uniqueId1, fs\<lparr> fs_cache := c, fs_changes := fs_changes fs @ evs \<rparr>))"

definition registerHashRule ::
    "bool \<Rightarrow> nat \<Rightarrow> FreeStyle \<Rightarrow> string \<Rightarrow> Styles \<Rightarrow> (string \<times> nat \<times> FreeStyle) option" where
  "registerHashRule production uniqueId fs prefix styles =
     (let (pid, rulesList, stylesList) = stylize [] styles [] [] None;
          ident = key production pid styles;
          selector = prefix @ '' '' @ (if production then ident else escape ident)
      in case composeStylize uniqueId emptyCache pid rulesList stylesList [] False of
           None \<Rightarrow> None
         | Some (uniqueId1, rc, evs0) \<Rightarrow>
             (case add (fs_cache fs) (Rule selector [] (''h'' @ NUL @ pid @ NUL @ prefix) rc) of
                None \<Rightarrow> None
              | Some (c, evs) \<Rightarrow>
                  Some (ident, uniqueId1,
                        fs\<lparr> fs_cache := c, fs_changes := fs_changes fs @ evs \<rparr>)))"

definition registerKeyframes ::
    "bool \<Rightarrow> nat \<Rightarrow> FreeStyle \<Rightarrow> Styles \<Rightarrow> (string \<times> nat \<times> FreeStyle) option" where
  "registerKeyframes production uniqueId fs keyframes =
     registerHashRule production uniqueId fs ''@keyframes'' keyframes"

definition registerRule ::
    "nat \<Rightarrow> FreeStyle \<Rightarrow> string \<Rightarrow> Styles \<Rightarrow> (nat \<times> FreeStyle) option" where
  "registerRule uniqueId fs rule styles =
     (let (pid, rulesList, stylesList) = stylize rule styles [] [] None
      in case composeStylize uniqueId (fs_cache fs) pid rulesList stylesList [] False of
           None \<Rightarrow> None
         | Some (uniqueId1, c, evs) \<Rightarrow>
             Some (uniqueId1, fs\<lparr> fs_cache := c, fs_changes := fs_changes fs @ evs \<rparr>))"

definition registerCss :: "nat \<Rightarrow> FreeStyle \<Rightarrow> Styles \<Rightarrow> (nat \<times> FreeStyle) option" where
  "registerCss uniqueId fs styles = registerRule uniqueId fs [] styles"

definition fsGetStyles :: "FreeStyle \<Rightarrow> string" where
  "fsGetStyles fs = concat (sheet (fs_cache fs))"

definition create :: "nat \<Rightarrow> nat \<times> FreeStyle" where
  "create uniqueId =
     (uniqueId + 1,
      \<lparr> fs_id = ''f'' @ toString36 (uniqueId + 1), fs_cache = emptyCache, fs_changes = [] \<rparr>)"


section \<open>Properties of the pure helpers\<close>

lemma CSS_NUMBER_member:
  "name \<in> set CSS_NUMBER \<longleftrightarrow>
     (\<exists>property \<in> set CSS_NUMBER_KEYS. \<exists>prefix \<in> set VENDOR_PREFIXES. name = prefix @ property)"
  unfolding CSS_NUMBER_def by auto

lemma margin_not_CSS_NUMBER: "''margin'' \<notin> set CSS_NUMBER"
  by (simp add: CSS_NUMBER_def CSS_NUMBER_KEYS_def VENDOR_PREFIXES_def)

lemma opacity_CSS_NUMBER: "''opacity'' \<in> set CSS_NUMBER"
  by (simp add: CSS_NUMBER_def CSS_NUMBER_KEYS_def VENDOR_PREFIXES_def)

lemma insertTuple_insort: "insertTuple a xs = insort_key fst a xs"
  by (induction xs) (auto simp: compareTuples_def)

lemma map_fst_insertTuple: "map fst (insertTuple a xs) = insort (fst a) (map fst xs)"
  by (induction xs) (auto simp: compareTuples_def)

lemma sortTuples_foldl_sorted:
  "sorted (map fst acc) \<Longrightarrow> sorted (map fst (foldl (\<lambda>sorted a. insertTuple a sorted) acc xs))"
  by (induction xs arbitrary: acc) (simp_all add: map_fst_insertTuple sorted_insort)

lemma sortTuples_foldl_distinct:
  "distinct (map fst (acc @ xs)) \<Longrightarrow>
   distinct (map fst (foldl (\<lambda>sorted a. insertTuple a sorted) acc xs))"
proof (induction xs arbitrary: acc)
  case Nil
  then show ?case by simp
next
  case (Cons a xs)
  have "distinct (map fst (insertTuple a acc @ xs))"
    using Cons.prems by (auto simp: map_fst_insertTuple distinct_insort set_insort_key)
  then show ?case using Cons.IH [of "insertTuple a acc"] by simp
qed

lemma sortTuples_foldl_length:
  "length (foldl (\<lambda>sorted a. insertTuple a sorted) acc xs) = length acc + length xs"
proof (induction xs arbitrary: acc)
  case Nil
  then show ?case by simp
next
  case (Cons a xs)
  have "length (insertTuple a acc) = Suc (length acc)"
    by (induction acc) auto
  then show ?case using Cons.IH [of "insertTuple a acc"] by simp
qed

lemma sorted_sortTuples: "sorted (map fst (sortTuples xs))"
  by (simp add: sortTuples_def sortTuples_foldl_sorted)

lemma distinct_sortTuples: "distinct (map fst xs) \<Longrightarrow> distinct (map fst (sortTuples xs))"
  by (simp add: sortTuples_def sortTuples_foldl_distinct)

lemma length_sortTuples: "length (sortTuples xs) = length xs"
  by (simp add: sortTuples_def sortTuples_foldl_length)

lemma keyed_list_eq:
  assumes "distinct (map fst xs)" and "set xs = set ys" and "map fst xs = map fst ys"
  shows "xs = ys"
proof (rule nth_equalityI)
  show len: "length xs = length ys"
    using assms(3) by (metis length_map)
  fix i assume i: "i < length xs"
  then have "xs ! i \<in> set ys" using assms(2) by (metis nth_mem)
  then obtain j where j: "j < length ys" "ys ! j = xs ! i"
    by (auto simp: in_set_conv_nth)
  have "map fst ys ! j = map fst ys ! i"
    using i j len assms(3) by (metis nth_map)
  moreover have "distinct (map fst ys)" using assms(1,3) by simp
  moreover have "j < length (map fst ys)" "i < length (map fst ys)"
    using i j len by simp_all
  ultimately have "j = i"
    by (simp only: nth_eq_iff_index_eq)
  then show "xs ! i = ys ! i" using j by simp
qed

lemma sortTuples_unique:
  assumes "distinct (map fst xs)" and "set ys = set xs" and "length ys = length xs"
    and "sorted (map fst ys)"
  shows "ys = sortTuples xs"
proof -
  have "card (fst ` set ys) = length ys"
    using assms(1,2,3) by (metis distinct_card length_map list.set_map)
  then have dy: "distinct (map fst ys)"
    by (metis card_distinct length_map list.set_map)
  have "map fst ys = map fst (sortTuples xs)"
    using dy assms distinct_sortTuples [OF assms(1)] sorted_sortTuples [of xs]
    by (intro sorted_distinct_set_unique) (simp_all add: set_sortTuples)
  then show ?thesis
    using dy assms(2) by (intro keyed_list_eq) (simp_all add: set_sortTuples)
qed

lemma sortTuples_reorder:
  assumes "distinct (map fst xs)" and "set ys = set xs" and "length ys = length xs"
  shows "sortTuples ys = sortTuples xs"
  using assms by (intro sortTuples_unique) (simp_all add: set_sortTuples length_sortTuples sorted_sortTuples)



section \<open>Properties of the flattening\<close>

text \<open>One step of the loop over the nested entries in \<open>stylize\<close>.\<close>

definition nestedStep ::
  "string option \<Rightarrow> string \<times> Styles \<Rightarrow> string \<times> StylizeRule list \<times> StylizeStyle list \<Rightarrow>
   string \<times> StylizeRule list \<times> StylizeStyle list" where
  "nestedStep parent entry acc =
     (case acc of (pid, rules, styles') \<Rightarrow>
        (let (r, rules2, styles2) = stylize (fst entry) (snd entry) rules styles' parent
         in (pid @ fst entry @ r, rules2, styles2)))"

lemma nestedStep_fold:
  "fold (\<lambda>entry (pid, rules, styles').
           (let (r, rules2, styles2) = stylize (fst entry) (snd entry) rules styles' parent
            in (pid @ fst entry @ r, rules2, styles2))) nested acc
   = fold (nestedStep parent) nested acc"
  by (rule arg_cong [where f = "\<lambda>f. fold f nested acc"]) (auto simp: nestedStep_def fun_eq_iff)

lemma stylize_unfold:
  "stylize selector styles rulesList stylesList parent =
     (let parsed = parseStyles styles (selector \<noteq> []) in
      if isAtRule selector then
        (case fold (nestedStep parent) (p_nested parsed)
                (p_style parsed, [],
                 (case truthyParent parent of
                    Some p \<Rightarrow>
                      if p_style parsed \<noteq> []
                      then [\<lparr> ss_selector = p, ss_style = p_style parsed,
                              ss_isUnique = p_isUnique parsed \<rparr>]
                      else []
                  | None \<Rightarrow> [])) of
           (pid, rules, styles') \<Rightarrow>
             (pid,
              rulesList @
                [StylizeRule selector
                   (case truthyParent parent of Some p \<Rightarrow> [] | None \<Rightarrow> p_style parsed)
                   rules styles'],
              stylesList))
      else
        fold (nestedStep (Some (case truthyParent parent of
                                  Some p \<Rightarrow> interpolate selector p
                                | None \<Rightarrow> selector)))
             (p_nested parsed)
             (p_style parsed, rulesList,
              if p_style parsed \<noteq> []
              then stylesList @
                     [\<lparr> ss_selector = (case truthyParent parent of
                                          Some p \<Rightarrow> interpolate selector p
                                        | None \<Rightarrow> selector),
                        ss_style = p_style parsed, ss_isUnique = p_isUnique parsed \<rparr>]
              else stylesList))"
  by (subst stylize.simps) (simp add: Let_def nestedStep_def [abs_def] cong: if_cong)

lemma nestedStep_simp:
  "nestedStep parent e (pid, rules, styles') =
     (case stylize (fst e) (snd e) rules styles' parent of
        (r, rules2, styles2) \<Rightarrow> (pid @ fst e @ r, rules2, styles2))"
  by (simp add: nestedStep_def)

lemma fold_nestedStep_pid:
  assumes "\<And>e rules styles'. e \<in> set nested \<Longrightarrow>
             fst (stylize (fst e) (snd e) rules styles' parent) = F e"
  shows "fst (fold (nestedStep parent) nested (pid0, r0, s0)) =
         pid0 @ concat (map (\<lambda>e. fst e @ F e) nested)"
  using assms
proof (induction nested arbitrary: pid0 r0 s0)
  case Nil
  then show ?case by simp
next
  case (Cons e nested)
  obtain r rules2 styles2 where st: "stylize (fst e) (snd e) r0 s0 parent = (r, rules2, styles2)"
    by (cases "stylize (fst e) (snd e) r0 s0 parent") auto
  have "r = F e" using Cons.prems [of e r0 s0] st by simp
  then show ?case
    using Cons.IH [of "pid0 @ fst e @ r" rules2 styles2] Cons.prems st
    by (simp add: nestedStep_simp)
qed

lemma stylize_pid:
  "fst (stylize selector styles rulesList stylesList parent) =
   p_style (parseStyles styles (selector \<noteq> [])) @
   concat (map (\<lambda>e. fst e @ fst (stylize (fst e) (snd e) [] [] None))
               (p_nested (parseStyles styles (selector \<noteq> []))))"
proof (induction styles arbitrary: selector rulesList stylesList parent
       rule: measure_induct_rule [where f = "\<lambda>styles. size (Object styles)"])
  case (less styles)
  let ?P = "parseStyles styles (selector \<noteq> [])"
  have ih: "\<And>e rules styles' par. e \<in> set (p_nested ?P) \<Longrightarrow>
     fst (stylize (fst e) (snd e) rules styles' par) = fst (stylize (fst e) (snd e) [] [] None)"
  proof -
    fix e :: "string \<times> Styles" and rules styles' par
    assume "e \<in> set (p_nested ?P)"
    then have sz: "size (Object (snd e)) < size (Object styles)"
      using parseStyles_nested_size [of "fst e" "snd e" styles "selector \<noteq> []"] by simp
    show "fst (stylize (fst e) (snd e) rules styles' par) = fst (stylize (fst e) (snd e) [] [] None)"
      using less [OF sz, of "fst e" rules styles' par] less [OF sz, of "fst e" "[]" "[]" None]
      by simp
  qed
  note fp = fold_nestedStep_pid [where F = "\<lambda>e. fst (stylize (fst e) (snd e) [] [] None)", OF ih]
  show ?case
  proof (cases "isAtRule selector")
    case True
    let ?acc = "(p_style ?P, [] :: StylizeRule list,
                 (case truthyParent parent of
                    Some p \<Rightarrow>
                      if p_style ?P \<noteq> []
                      then [\<lparr> ss_selector = p, ss_style = p_style ?P, ss_isUnique = p_isUnique ?P \<rparr>]
                      else []
                  | None \<Rightarrow> []))"
    obtain pid rules styles' where f: "fold (nestedStep parent) (p_nested ?P) ?acc = (pid, rules, styles')"
      by (cases "fold (nestedStep parent) (p_nested ?P) ?acc") auto
    have "fst (fold (nestedStep parent) (p_nested ?P) ?acc) =
          p_style ?P @ concat (map (\<lambda>e. fst e @ fst (stylize (fst e) (snd e) [] [] None)) (p_nested ?P))"
      by (rule fp)
    with f have "pid = p_style ?P @ concat (map (\<lambda>e. fst e @ fst (stylize (fst e) (snd e) [] [] None)) (p_nested ?P))"
      by simp
    then show ?thesis
      using True f by (subst stylize_unfold) (simp add: Let_def)
  next
    case False
    then show ?thesis
      by (subst stylize_unfold) (simp add: Let_def fp)
  qed
qed


lemma fold_nestedStep_appends:
  assumes "\<And>e rules styles'. e \<in> set nested \<Longrightarrow>
             \<exists>rs ss. snd (stylize (fst e) (snd e) rules styles' parent) = (rules @ rs, styles' @ ss)"
  shows "\<exists>rs ss. snd (fold (nestedStep parent) nested (pid0, r0, s0)) = (r0 @ rs, s0 @ ss)"
  using assms
proof (induction nested arbitrary: pid0 r0 s0)
  case Nil
  then show ?case by simp
next
  case (Cons e nested)
  obtain r rs ss where st: "stylize (fst e) (snd e) r0 s0 parent = (r, r0 @ rs, s0 @ ss)"
    using Cons.prems [of e r0 s0] by (cases "stylize (fst e) (snd e) r0 s0 parent") auto
  obtain rs' ss' where
    "snd (fold (nestedStep parent) nested (pid0 @ fst e @ r, r0 @ rs, s0 @ ss)) =
       ((r0 @ rs) @ rs', (s0 @ ss) @ ss')"
    using Cons.IH [of "pid0 @ fst e @ r" "r0 @ rs" "s0 @ ss"] Cons.prems by auto
  then show ?case
    using st by (simp add: nestedStep_simp)
qed

lemma stylize_appends:
  "\<exists>rs ss. snd (stylize selector styles rulesList stylesList parent) = (rulesList @ rs, stylesList @ ss)"
proof (induction styles arbitrary: selector rulesList stylesList parent
       rule: measure_induct_rule [where f = "\<lambda>styles. size (Object styles)"])
  case (less styles)
  let ?P = "parseStyles styles (selector \<noteq> [])"
  have ih: "\<And>e rules styles' par. e \<in> set (p_nested ?P) \<Longrightarrow>
     \<exists>rs ss. snd (stylize (fst e) (snd e) rules styles' par) = (rules @ rs, styles' @ ss)"
  proof -
    fix e :: "string \<times> Styles" and rules styles' par
    assume "e \<in> set (p_nested ?P)"
    then have sz: "size (Object (snd e)) < size (Object styles)"
      using parseStyles_nested_size [of "fst e" "snd e" styles "selector \<noteq> []"] by simp
    show "\<exists>rs ss. snd (stylize (fst e) (snd e) rules styles' par) = (rules @ rs, styles' @ ss)"
      by (rule less [OF sz])
  qed
  show ?case
  proof (cases "isAtRule selector")
    case True
    then show ?thesis
      by (subst stylize_unfold) (simp add: Let_def split: prod.splits)
  next
    case False
    let ?key = "case truthyParent parent of Some p \<Rightarrow> interpolate selector p | None \<Rightarrow> selector"
    let ?s1 = "if p_style ?P \<noteq> []
               then stylesList @ [\<lparr> ss_selector = ?key, ss_style = p_style ?P, ss_isUnique = p_isUnique ?P \<rparr>]
               else stylesList"
    obtain rs ss where
      "snd (fold (nestedStep (Some ?key)) (p_nested ?P) (p_style ?P, rulesList, ?s1)) = (rulesList @ rs, ?s1 @ ss)"
      using fold_nestedStep_appends [of "p_nested ?P" "Some ?key" "p_style ?P" rulesList ?s1] ih
      by blast
    then show ?thesis
      using False by (subst stylize_unfold) (auto simp add: Let_def)
  qed
qed

lemma stylize_plain_entry:
  assumes "\<not> isAtRule selector" and "p_style (parseStyles styles (selector \<noteq> [])) \<noteq> []"
  shows "\<exists>rest. snd (snd (stylize selector styles rulesList stylesList parent)) =
           stylesList @
           \<lparr> ss_selector = (case truthyParent parent of Some p \<Rightarrow> interpolate selector p | None \<Rightarrow> selector),
              ss_style = p_style (parseStyles styles (selector \<noteq> [])),
              ss_isUnique = p_isUnique (parseStyles styles (selector \<noteq> [])) \<rparr> # rest"
proof -
  let ?P = "parseStyles styles (selector \<noteq> [])"
  let ?key = "case truthyParent parent of Some p \<Rightarrow> interpolate selector p | None \<Rightarrow> selector"
  let ?s1 = "stylesList @ [\<lparr> ss_selector = ?key, ss_style = p_style ?P, ss_isUnique = p_isUnique ?P \<rparr>]"
  have "\<And>e rules styles'. e \<in> set (p_nested ?P) \<Longrightarrow>
     \<exists>rs ss. snd (stylize (fst e) (snd e) rules styles' (Some ?key)) = (rules @ rs, styles' @ ss)"
    by (rule stylize_appends)
  then obtain rs ss where
    "snd (fold (nestedStep (Some ?key)) (p_nested ?P) (p_style ?P, rulesList, ?s1)) = (rulesList @ rs, ?s1 @ ss)"
    using fold_nestedStep_appends [of "p_nested ?P" "Some ?key" "p_style ?P" rulesList ?s1]
    by blast
  then show ?thesis
    using assms by (subst stylize_unfold) (auto simp add: Let_def)
qed

lemma interpolate_pieces_aux:
  "\<forall>piece \<in> set pieces. CHR ''&'' \<notin> set piece \<Longrightarrow>
   concat (map (\<lambda>c. if c = CHR ''&'' then p else [c]) (joinWith ''&'' pieces)) = joinWith p pieces"
proof (induction "''&''" pieces rule: joinWith.induct)
  case 1
  then show ?case by simp
next
  case (2 x)
  then show ?case by (induction x) auto
next
  case (3 x y ys)
  have "concat (map (\<lambda>c. if c = CHR ''&'' then p else [c]) x) = x"
    using 3(2) by (induction x) auto
  then show ?case using 3 by simp
qed

text \<open>A parent without a dollar sign is substituted as it is.\<close>

lemma getSubstitution_plain:
  "CHR ''$'' \<notin> set p \<Longrightarrow> getSubstitution matched front behind p = p"
  by (induction matched front behind p rule: getSubstitution.induct) auto

lemma replaceAmp_plain:
  "CHR ''$'' \<notin> set p \<Longrightarrow>
   replaceAmp front selector p = concat (map (\<lambda>c. if c = CHR ''&'' then p else [c]) selector)"
  by (induction selector arbitrary: front) (simp_all add: getSubstitution_plain)

lemma interpolate_plain:
  "CHR ''$'' \<notin> set p \<Longrightarrow>
   interpolate selector p =
     (if CHR ''&'' \<notin> set selector then p @ '' '' @ selector
      else concat (map (\<lambda>c. if c = CHR ''&'' then p else [c]) selector))"
  by (simp add: interpolate_def replaceAmp_plain)

lemma interpolate_pieces:
  assumes "2 \<le> length pieces" and "\<forall>piece \<in> set pieces. CHR ''&'' \<notin> set piece"
    and "CHR ''$'' \<notin> set p"
  shows "interpolate (joinWith ''&'' pieces) p = joinWith p pieces"
proof -
  obtain x y ys where "pieces = x # y # ys"
    using assms(1) by (cases pieces; cases "tl pieces") auto
  then have "CHR ''&'' \<in> set (joinWith ''&'' pieces)" by simp
  then show ?thesis
    using interpolate_pieces_aux [OF assms(2)] assms(3) by (simp add: interpolate_plain)
qed

definition hoverExample :: Styles where
  "hoverExample =
     [(''&'', Object [(''color'', Scalar (VString ''red''))]),
      (''&:hover'', Object [(''color'', Scalar (VString ''blue''))])]"

lemma hoverExample_stylize:
  "stylize ''&'' hoverExample [] [] None =
     (''&color:red&:hovercolor:blue'', [],
      [\<lparr> ss_selector = ''&'', ss_style = ''color:red'', ss_isUnique = False \<rparr>,
       \<lparr> ss_selector = ''&:hover'', ss_style = ''color:blue'', ss_isUnique = False \<rparr>])"
  by (simp add: hoverExample_def stylize.simps parseStyles_def Let_def sortTuples_def
      stringifyProperties_def styleToString_def trim_def isWhiteSpace_def notDollar_def
      hyphenate_def isUpper_def isAtRule_def truthyParent_def interpolate_def getProperty_def)

lemma hoverExample_compose:
  "map_option (\<lambda>r. sheet (fst (snd r)))
     (composeStylize 0 emptyCache ''&color:red&:hovercolor:blue'' []
       [\<lparr> ss_selector = ''&'', ss_style = ''color:red'', ss_isUnique = False \<rparr>,
        \<lparr> ss_selector = ''&:hover'', ss_style = ''color:blue'', ss_isUnique = False \<rparr>] ''.abc'' True)
   = Some [''.abc{color:red}'', ''.abc:hover{color:blue}'']"
  by (simp add: add.simps addItem.simps merge.simps emptyCache_def countOf_def values_of_def
      interpolate_def NUL_def Let_def)


section \<open>Numeric values in declarations\<close>

text \<open>
  Claim C10. For every property name, also one outside the unit-less set such as
  \<open>margin\<close>, a declaration whose numeric value is 0 renders as \<open>name:0\<close> without the
  \<open>px\<close> suffix: the branch that appends \<open>px\<close> requires the value to be truthy.
\<close>

theorem zero_renders_without_px:
  "styleToString name (VNumber (Number ''0'')) = name @ '':0''
   \<and> stringifyProperties [(name, Inl (VNumber (Number ''0'')))] = name @ '':0''
   \<and> p_style (parseStyles [(''margin'', Scalar (VNumber (Number ''0'')))] h) = ''margin:0''"
  by (simp add: styleToString_def numberToBoolean_def stringifyProperties_def parseStyles_def
      sortTuples_def Let_def trim_def isWhiteSpace_def notDollar_def hyphenate_def isUpper_def)

theorem zero_renders_without_px_witness:
  "styleToString ''margin'' (VNumber (Number ''0'')) = ''margin:0''
   \<and> ''margin'' \<notin> set CSS_NUMBER"
  using zero_renders_without_px [of "''margin''"] margin_not_CSS_NUMBER by simp

text \<open>
  Claim C6, as stated: every scalar numeric value of a property outside the unit-less set
  is rendered with the \<open>px\<close> suffix. It fails for the value 0 of \<open>margin\<close>.
\<close>

theorem numeric_px_counterexample:
  "''margin'' \<notin> set CSS_NUMBER
   \<and> styleToString ''margin'' (VNumber (Number ''0'')) \<noteq> ''margin:0px''"
  using margin_not_CSS_NUMBER
  by (simp add: styleToString_def numberToBoolean_def)

text \<open>
  Claim C6, amended. For every declaration whose scalar numeric value is truthy (neither
  zero nor NaN), the rendered text is the bare number \<open>name:value\<close> when the hyphenated
  property name is in the unit-less set, that is a name of \<open>CSS_NUMBER_KEYS\<close> behind one of
  the prefixes \<open>-webkit-\<close>, \<open>-ms-\<close>, \<open>-moz-\<close>, \<open>-o-\<close> or none, and is \<open>name:valuepx\<close> for
  every other property; a falsy number is rendered bare under every name. In particular
  \<open>{opacity: 0.5}\<close> renders \<open>opacity:0.5\<close> and \<open>{margin: 10}\<close> renders \<open>margin:10px\<close>.
\<close>

theorem numeric_unit_policy:
  "(numberToBoolean n \<longrightarrow>
      styleToString name (VNumber n) =
        (if \<exists>property \<in> set CSS_NUMBER_KEYS. \<exists>prefix \<in> set VENDOR_PREFIXES. name = prefix @ property
         then name @ '':'' @ numberToString n
         else name @ '':'' @ numberToString n @ ''px''))
   \<and> (\<not> numberToBoolean n \<longrightarrow> styleToString name (VNumber n) = name @ '':'' @ numberToString n)
   \<and> p_style (parseStyles [(''opacity'', Scalar (VNumber (Number ''0.5'')))] h) = ''opacity:0.5''
   \<and> p_style (parseStyles [(''margin'', Scalar (VNumber (Number ''10'')))] h) = ''margin:10px''"
proof -
  have a: "numberToBoolean n \<longrightarrow>
      styleToString name (VNumber n) =
        (if \<exists>property \<in> set CSS_NUMBER_KEYS. \<exists>prefix \<in> set VENDOR_PREFIXES. name = prefix @ property
         then name @ '':'' @ numberToString n
         else name @ '':'' @ numberToString n @ ''px'')"
    unfolding CSS_NUMBER_member [symmetric] by (simp add: styleToString_def)
  have b: "\<not> numberToBoolean n \<longrightarrow> styleToString name (VNumber n) = name @ '':'' @ numberToString n"
    by (simp add: styleToString_def)
  have c: "p_style (parseStyles [(''opacity'', Scalar (VNumber (Number ''0.5'')))] h) = ''opacity:0.5''"
    using opacity_CSS_NUMBER
    by (simp add: styleToString_def numberToBoolean_def stringifyProperties_def parseStyles_def
        sortTuples_def Let_def trim_def isWhiteSpace_def notDollar_def hyphenate_def isUpper_def)
  have d: "p_style (parseStyles [(''margin'', Scalar (VNumber (Number ''10'')))] h) = ''margin:10px''"
    using margin_not_CSS_NUMBER
    by (simp add: styleToString_def numberToBoolean_def stringifyProperties_def parseStyles_def
        sortTuples_def Let_def trim_def isWhiteSpace_def notDollar_def hyphenate_def isUpper_def)
  from a b c d show ?thesis by blast
qed

theorem numeric_unit_policy_witness:
  "numberToBoolean (Number ''10'')
   \<and> styleToString ''margin'' (VNumber (Number ''10'')) = ''margin:10px''
   \<and> styleToString ''-webkit-flex'' (VNumber (Number ''10'')) = ''-webkit-flex:10''"
proof -
  have t: "numberToBoolean (Number ''10'')" by (simp add: numberToBoolean_def)
  have m: "\<not> (\<exists>property \<in> set CSS_NUMBER_KEYS. \<exists>prefix \<in> set VENDOR_PREFIXES. ''margin'' = prefix @ property)"
    using margin_not_CSS_NUMBER unfolding CSS_NUMBER_member .
  have f: "\<exists>property \<in> set CSS_NUMBER_KEYS. \<exists>prefix \<in> set VENDOR_PREFIXES. ''-webkit-flex'' = prefix @ property"
    by (rule bexI [of _ "''flex''"], rule bexI [of _ "''-webkit-''"])
       (simp_all add: CSS_NUMBER_KEYS_def VENDOR_PREFIXES_def)
  show ?thesis
    using t m f numeric_unit_policy [of "Number ''10''" "''margin''"]
      numeric_unit_policy [of "Number ''10''" "''-webkit-flex''"]
    by simp
qed

section \<open>Selector interpolation\<close>

lemma replaceAmp_none:
  "CHR ''&'' \<notin> set selector \<Longrightarrow> replaceAmp front selector p = selector"
  by (induction selector arbitrary: front) auto

lemma replaceAmp_append:
  "CHR ''&'' \<notin> set a \<Longrightarrow>
   replaceAmp front (a @ CHR ''&'' # b) p =
     a @ getSubstitution ''&'' (front @ a) b p @ replaceAmp (front @ a @ ''&'') b p"
  by (induction a arbitrary: front) auto

definition titleExample :: Styles where
  "titleExample =
     [(''a[title='' @ [CHR 0x27] @ ''$'' @ [CHR 0x27] @ '']'',
       Object [(''&:hover'', Object [(''color'', Scalar (VString ''red''))])])]"

text \<open>
  Claim C7, as stated: under a parent, every \<open>&\<close> of a plain selector is replaced by the
  text of the parent. The source substitutes with \<open>selector.replace(/&/g, parent)\<close>, where
  the parent is a replacement pattern: under the parent \<open>x$&\<close> the selector \<open>& y\<close> becomes
  \<open>x& y\<close>, not \<open>x$& y\<close>, also in the entry that \<open>stylize\<close> pushes. Through
  \<open>registerStyle\<close>: the style \<open>{ "a[title='$']": { "&:hover": {color: "red"} } }\<close> gives
  the rule of \<open>.ft9t7qt a[title=':hover]:hover\<close>, where the \<open>$'\<close> of the parent
  \<open>.ft9t7qt a[title='$']\<close> has become the text behind the \<open>&\<close>.
\<close>

theorem effective_selector_counterexample:
  "interpolate ''& y'' ''x$&'' = ''x& y''
   \<and> concat (map (\<lambda>c. if c = CHR ''&'' then ''x$&'' else [c]) ''& y'') = ''x$& y''
   \<and> snd (snd (stylize ''& y'' [(''color'', Scalar (VString ''red''))] [] [] (Some ''x$&''))) =
       [\<lparr> ss_selector = ''x& y'', ss_style = ''color:red'', ss_isUnique = False \<rparr>]
   \<and> map_option (\<lambda>r. (fst r, fsGetStyles (snd (snd r))))
         (registerStyle True 1 (snd (create 0)) titleExample) =
       Some (''ft9t7qt'',
             ''.ft9t7qt a[title='' @ [CHR 0x27] @ '':hover]:hover{color:red}'')"
  by (simp add: interpolate_def stylize.simps parseStyles_def Let_def sortTuples_def
      compareTuples_def stringifyProperties_def styleToString_def trim_def isWhiteSpace_def
      notDollar_def hyphenate_def isUpper_def toLowerCase_def isAtRule_def truthyParent_def
      getProperty_def add.simps addItem.simps merge.simps emptyCache_def countOf_def
      values_of_def NUL_def registerStyle_def key_def stringHash_def toString36.simps
      digit36_def create_def titleExample_def fsGetStyles_def)

text \<open>
  Claim C7, for the parents that hold no dollar sign. When \<open>stylize\<close> handles a plain
  selector (not an at-rule), the entry that it pushes for the node's declarations has the
  effective selector: the selector itself without a parent (the source tests the parent
  for truthiness, so the empty string is no parent), and \<open>interpolate\<close> of the selector
  and the parent otherwise. \<open>interpolate\<close> gives the parent, a space and the selector when
  the selector holds no \<open>&\<close>, whatever the parent is; for a parent without a dollar sign
  and a selector with \<open>&\<close> it gives the selector with every \<open>&\<close> replaced by the parent, so
  that the pieces between the \<open>&\<close>s, joined by \<open>&\<close>, become the pieces joined by the
  parent. For any parent, a selector with one \<open>&\<close> becomes the text before it, the
  replacement that the parent gives as a pattern, and the text behind it. Registering
  \<open>{ "&": {color: "red"}, "&:hover": {color: "blue"} }\<close> under the class \<open>.abc\<close> gives the
  rules of \<open>.abc\<close> and \<open>.abc:hover\<close>.
\<close>

theorem effective_selector:
  "(\<not> isAtRule selector \<and> p_style (parseStyles styles (selector \<noteq> [])) \<noteq> [] \<longrightarrow>
      (\<exists>rest. snd (snd (stylize selector styles rulesList stylesList parent)) =
         stylesList @
         \<lparr> ss_selector =
              (case parent of
                 None \<Rightarrow> selector
               | Some p \<Rightarrow> if p = [] then selector else interpolate selector p),
            ss_style = p_style (parseStyles styles (selector \<noteq> [])),
            ss_isUnique = p_isUnique (parseStyles styles (selector \<noteq> [])) \<rparr> # rest))
   \<and> (CHR ''&'' \<notin> set selector \<longrightarrow> interpolate selector p = p @ '' '' @ selector)
   \<and> (CHR ''&'' \<in> set selector \<and> CHR ''$'' \<notin> set p \<longrightarrow>
        interpolate selector p = concat (map (\<lambda>c. if c = CHR ''&'' then p else [c]) selector))
   \<and> (2 \<le> length pieces \<and> (\<forall>piece \<in> set pieces. CHR ''&'' \<notin> set piece) \<and> CHR ''$'' \<notin> set p \<longrightarrow>
        interpolate (joinWith ''&'' pieces) p = joinWith p pieces)
   \<and> (CHR ''&'' \<notin> set lead \<and> CHR ''&'' \<notin> set trail \<longrightarrow>
        interpolate (lead @ ''&'' @ trail) p = lead @ getSubstitution ''&'' lead trail p @ trail)
   \<and> (case stylize ''&'' hoverExample [] [] None of
         (pid, rulesList', stylesList') \<Rightarrow>
           map_option (\<lambda>r. sheet (fst (snd r)))
             (composeStylize 0 emptyCache pid rulesList' stylesList' ''.abc'' True))
       = Some [''.abc{color:red}'', ''.abc:hover{color:blue}'']"
proof -
  have k: "(case truthyParent parent of Some p \<Rightarrow> interpolate selector p | None \<Rightarrow> selector) =
           (case parent of
              None \<Rightarrow> selector
            | Some p \<Rightarrow> if p = [] then selector else interpolate selector p)"
    by (simp add: truthyParent_def split: option.splits)
  have a: "\<not> isAtRule selector \<and> p_style (parseStyles styles (selector \<noteq> [])) \<noteq> [] \<longrightarrow>
      (\<exists>rest. snd (snd (stylize selector styles rulesList stylesList parent)) =
         stylesList @
         \<lparr> ss_selector =
              (case parent of
                 None \<Rightarrow> selector
               | Some p \<Rightarrow> if p = [] then selector else interpolate selector p),
            ss_style = p_style (parseStyles styles (selector \<noteq> [])),
            ss_isUnique = p_isUnique (parseStyles styles (selector \<noteq> [])) \<rparr> # rest)"
    using stylize_plain_entry [of selector styles rulesList stylesList parent]
    unfolding k by blast
  have b: "CHR ''&'' \<notin> set selector \<longrightarrow> interpolate selector p = p @ '' '' @ selector"
    by (simp add: interpolate_def)
  have c: "CHR ''&'' \<in> set selector \<and> CHR ''$'' \<notin> set p \<longrightarrow>
        interpolate selector p = concat (map (\<lambda>c. if c = CHR ''&'' then p else [c]) selector)"
    by (simp add: interpolate_plain)
  have d: "2 \<le> length pieces \<and> (\<forall>piece \<in> set pieces. CHR ''&'' \<notin> set piece) \<and> CHR ''$'' \<notin> set p \<longrightarrow>
        interpolate (joinWith ''&'' pieces) p = joinWith p pieces"
    using interpolate_pieces [of pieces p] by blast
  have e: "CHR ''&'' \<notin> set lead \<and> CHR ''&'' \<notin> set trail \<longrightarrow>
        interpolate (lead @ ''&'' @ trail) p = lead @ getSubstitution ''&'' lead trail p @ trail"
    using replaceAmp_append [of lead "[]" trail p]
    by (simp add: interpolate_def replaceAmp_none)
  have f: "(case stylize ''&'' hoverExample [] [] None of
         (pid, rulesList', stylesList') \<Rightarrow>
           map_option (\<lambda>r. sheet (fst (snd r)))
             (composeStylize 0 emptyCache pid rulesList' stylesList' ''.abc'' True))
       = Some [''.abc{color:red}'', ''.abc:hover{color:blue}'']"
    using hoverExample_compose by (simp only: hoverExample_stylize prod.case)
  from a b c d e f show ?thesis by (intro conjI)
qed

theorem effective_selector_witness:
  "\<not> isAtRule ''&:hover''
   \<and> p_style (parseStyles [(''color'', Scalar (VString ''blue''))] (''&:hover'' \<noteq> [])) \<noteq> []
   \<and> (\<exists>rest. snd (snd (stylize ''&:hover'' [(''color'', Scalar (VString ''blue''))] [] [] (Some ''.abc''))) =
         \<lparr> ss_selector = ''.abc:hover'', ss_style = ''color:blue'', ss_isUnique = False \<rparr> # rest)
   \<and> CHR ''&'' \<in> set ''&:hover'' \<and> CHR ''$'' \<notin> set ''.abc''
   \<and> 2 \<le> length [''a '', '' b'', []]
   \<and> list_all (\<lambda>piece. CHR ''&'' \<notin> set piece) [''a '', '' b'', []]
   \<and> interpolate ''a & b&'' ''.abc'' = ''a .abc b.abc''
   \<and> CHR ''&'' \<notin> set ''a '' \<and> CHR ''&'' \<notin> set '' b''
   \<and> interpolate ''a & b'' ''.abc'' = ''a .abc b''"
proof -
  have s: "p_style (parseStyles [(''color'', Scalar (VString ''blue''))] (''&:hover'' \<noteq> [])) = ''color:blue''"
    and u: "p_isUnique (parseStyles [(''color'', Scalar (VString ''blue''))] (''&:hover'' \<noteq> [])) = False"
    by (simp_all add: parseStyles_def Let_def sortTuples_def stringifyProperties_def
        styleToString_def trim_def isWhiteSpace_def notDollar_def hyphenate_def isUpper_def
        getProperty_def)
  have n: "\<not> isAtRule ''&:hover''" by (simp add: isAtRule_def)
  have j: "joinWith ''&'' [''a '', '' b'', []] = ''a & b&''" by simp
  have i: "interpolate ''&:hover'' ''.abc'' = ''.abc:hover''" by (simp add: interpolate_def)
  show ?thesis
    using n effective_selector [of "''&:hover''" "[(''color'', Scalar (VString ''blue''))]" "[]" "[]"
        "Some ''.abc''" "''.abc''" "[''a '', '' b'', []]" "''a ''" "'' b''"]
    unfolding s u j by (simp add: i)
qed

section \<open>Order of the nested entries\<close>

lemmas eval_simps =
  stylize.simps parseStyles_def Let_def sortTuples_def compareTuples_def
  stringifyProperties_def styleToString_def trim_def isWhiteSpace_def notDollar_def
  hyphenate_def isUpper_def toLowerCase_def isAtRule_def truthyParent_def interpolate_def
  getProperty_def numberToBoolean_def
  add.simps addItem.simps merge.simps remove.simps unmerge.simps
  emptyCache_def countOf_def values_of_def NUL_def splice1_def
  registerStyle_def registerRule_def registerCss_def key_def stringHash_def toString36.simps
  digit36_def escape_def escapeChars_def create_def

definition orderExample :: Styles where
  "orderExample =
     [(''b'', Object [(''color'', Scalar (VString ''red''))]),
      (''a'', Object [(''color'', Scalar (VString ''blue''))])]"

text \<open>
  Claim C4, as stated: the nested entries are sorted by name exactly at the outermost
  node of a registration. It fails in both directions. \<open>registerStyle\<close> calls \<open>stylize\<close>
  with the selector \<open>&\<close>, so the entries of its outermost node keep the authoring order
  (\<open>b\<close> before \<open>a\<close>); and a nested node under a key that trims to the empty string is
  parsed with the flag unset, so its entries are sorted (\<open>a\<close> before \<open>b\<close>).
\<close>

theorem nested_order_counterexample:
  "map fst (p_nested (parseStyles orderExample (''&'' \<noteq> []))) = [''b'', ''a'']
   \<and> \<not> sorted [''b'', ''a'']
   \<and> map_option (\<lambda>r. sheet (fs_cache (snd (snd r))))
        (registerStyle False 1 (snd (create 0)) orderExample)
       = Some [''.fe3ez3f b{color:red}'', ''.fe3ez3f a{color:blue}'']
   \<and> map_option (\<lambda>r. sheet (fs_cache (snd (snd r))))
        (registerStyle False 1 (snd (create 0)) [([], Object orderExample)])
       = Some [''.fmdfs17  a{color:blue}'', ''.fmdfs17  b{color:red}'']"
  by (simp add: orderExample_def eval_simps)

text \<open>
  Claim C4, amended. \<open>parseStyles\<close> returns the nested entries sorted by name exactly when
  its flag \<open>hasNestedStyles\<close> is false, and in authoring order when it is true.
  \<open>stylize\<close> passes \<open>selector !== ""\<close> for the flag, at the outermost node and at every
  deeper one alike: the entries of a node are sorted when the node's selector is the empty
  string (the outermost node of \<open>registerCss\<close> and \<open>registerHashRule\<close>, or a nested key that
  trims to the empty string) and keep the authoring order under every other selector (the
  outermost node of \<open>registerStyle\<close>, whose selector is \<open>&\<close>, among them). The
  fingerprint that \<open>stylize\<close> returns visits the entries in that order.
\<close>

theorem nested_order:
  "p_nested (parseStyles styles True) = concat (map nestedOf styles)
   \<and> p_nested (parseStyles styles False) = sortTuples (concat (map nestedOf styles))
   \<and> sorted (map fst (p_nested (parseStyles styles False)))
   \<and> set (p_nested (parseStyles styles False)) = set (concat (map nestedOf styles))
   \<and> length (p_nested (parseStyles styles False)) = length (concat (map nestedOf styles))
   \<and> fst (stylize selector styles rulesList stylesList parent) =
       p_style (parseStyles styles (selector \<noteq> [])) @
       concat (map (\<lambda>e. fst e @ fst (stylize (fst e) (snd e) [] [] None))
                 (if selector = [] then sortTuples (concat (map nestedOf styles))
                  else concat (map nestedOf styles)))"
proof -
  have t: "p_nested (parseStyles styles True) = concat (map nestedOf styles)"
    and f: "p_nested (parseStyles styles False) = sortTuples (concat (map nestedOf styles))"
    by (simp_all add: parseStyles_def parseStylesLoop_eq)
  have n: "p_nested (parseStyles styles (selector \<noteq> [])) =
           (if selector = [] then sortTuples (concat (map nestedOf styles))
            else concat (map nestedOf styles))"
    using t f by simp
  show ?thesis
    unfolding n [symmetric]
    using t f stylize_pid [of selector styles rulesList stylesList parent]
    by (simp add: sorted_sortTuples set_sortTuples length_sortTuples)
qed

theorem nested_order_witness:
  "fst (stylize [] orderExample [] [] None) = ''acolor:bluebcolor:red''
   \<and> fst (stylize ''&'' orderExample [] [] None) = ''bcolor:redacolor:blue''
   \<and> map fst (p_nested (parseStyles orderExample False)) = [''a'', ''b'']"
proof -
  have n: "concat (map nestedOf orderExample) =
           [(''b'', [(''color'', Scalar (VString ''red''))]),
            (''a'', [(''color'', Scalar (VString ''blue''))])]"
    by (simp add: orderExample_def trim_def isWhiteSpace_def notDollar_def)
  have s: "sortTuples [(''b'', [(''color'', Scalar (VString ''red''))]),
                       (''a'', [(''color'', Scalar (VString ''blue''))])] =
           [(''a'', [(''color'', Scalar (VString ''blue''))]),
            (''b'', [(''color'', Scalar (VString ''red''))])]"
    by (simp add: sortTuples_def compareTuples_def)
  have l: "fst (stylize ''a'' [(''color'', Scalar (VString ''blue''))] [] [] None) = ''color:blue''"
          "fst (stylize ''b'' [(''color'', Scalar (VString ''red''))] [] [] None) = ''color:red''"
          "p_style (parseStyles orderExample h) = []" for h
    by (simp_all add: orderExample_def eval_simps)
  show ?thesis
    using nested_order [of orderExample "[]" "[]" "[]" None]
      nested_order [of orderExample "''&''" "[]" "[]" None]
    unfolding n s by (simp add: l)
qed

section \<open>Invariants of a cache\<close>

definition aligned :: "node cache \<Rightarrow> bool" where
  "aligned c =
     list_all2 (\<lambda>k text. case map_of (children c) k of
                            None \<Rightarrow> False
                          | Some item \<Rightarrow> nodeId item = k \<and> text = getStyles item)
       (keys c) (sheet c)"

definition counted :: "'n cache \<Rightarrow> bool" where
  "counted c =
     ((\<forall>k \<in> set (keys c). countOf c k \<noteq> 0)
      \<and> (\<forall>k \<in> set (map fst (counters c)). k \<in> set (keys c))
      \<and> (\<forall>k \<in> set (map fst (children c)). k \<in> set (keys c)))"

definition cacheInv :: "node cache \<Rightarrow> bool" where
  "cacheInv c = (distinct (keys c) \<and> counted c \<and> aligned c)"

lemma indexOf_member:
  "k \<in> set xs \<Longrightarrow> 0 \<le> indexOf xs k \<and> nat (indexOf xs k) < length xs \<and> xs ! nat (indexOf xs k) = k"
  by (induction xs) (auto simp: Let_def nat_add_distrib)

lemma indexOf_not_member: "k \<notin> set xs \<Longrightarrow> indexOf xs k = -1"
  by (induction xs) (auto simp: Let_def)

lemma indexOf_nonneg: "- 1 \<le> indexOf xs k"
  by (induction xs) (auto simp: Let_def)

lemma indexOf_nth: "distinct xs \<Longrightarrow> i < length xs \<Longrightarrow> indexOf xs (xs ! i) = int i"
proof (induction xs arbitrary: i)
  case Nil
  then show ?case by simp
next
  case (Cons x xs)
  then show ?case by (cases i) (auto simp: Let_def)
qed

lemma splice1_replace:
  "0 \<le> i \<Longrightarrow> nat i < length xs \<Longrightarrow> splice1 xs i [y] = xs[nat i := y]"
proof -
  assume a: "0 \<le> i" "nat i < length xs"
  then have "i \<le> int (length xs)" by linarith
  with a show ?thesis
    by (simp add: splice1_def Let_def upd_conv_take_nth_drop min_def)
qed

lemma splice1_delete:
  "0 \<le> i \<Longrightarrow> nat i < length xs \<Longrightarrow> splice1 xs i [] = take (nat i) xs @ drop (Suc (nat i)) xs"
proof -
  assume a: "0 \<le> i" "nat i < length xs"
  then have "i \<le> int (length xs)" by linarith
  with a show ?thesis
    by (simp add: splice1_def Let_def min_def)
qed

lemma splice1_delete_last: "splice1 (xs @ [x]) (int (length xs)) [] = xs"
  by (simp add: splice1_def Let_def)

lemma aligned_iff:
  "aligned c \<longleftrightarrow>
     length (sheet c) = length (keys c) \<and>
     (\<forall>i < length (keys c). \<exists>item. map_of (children c) (keys c ! i) = Some item \<and>
        nodeId item = keys c ! i \<and> sheet c ! i = getStyles item)"
  unfolding aligned_def list_all2_conv_all_nth
  by (auto split: option.splits)

lemma counted_iff: "counted c \<Longrightarrow> countOf c k \<noteq> 0 \<longleftrightarrow> k \<in> set (keys c)"
proof
  assume c: "counted c" and n: "countOf c k \<noteq> 0"
  then obtain m where "map_of (counters c) k = Some m"
    by (auto simp: countOf_def split: option.splits)
  then have "k \<in> set (map fst (counters c))"
    by (metis map_of_SomeD fst_conv image_eqI list.set_map)
  with c n show "k \<in> set (keys c)" by (auto simp: counted_def)
next
  assume "counted c" and "k \<in> set (keys c)"
  then show "countOf c k \<noteq> 0" by (simp add: counted_def)
qed

lemma counted_children: "counted c \<Longrightarrow> k \<notin> set (keys c) \<Longrightarrow> map_of (children c) k = None"
  by (auto simp: counted_def map_of_eq_None_iff)

lemma nodeId_setCache [simp]: "nodeId (setCache item c) = nodeId item"
  by (cases item) auto

lemma cacheOf_setCache: "cacheOf item = Some ic \<Longrightarrow> cacheOf (setCache item c) = Some c"
  by (cases item) auto

lemma getStyles_setCache:
  "cacheOf item = Some ic \<Longrightarrow> sheet c = sheet ic \<Longrightarrow> getStyles (setCache item c) = getStyles item"
  by (cases item) auto

lemma nodeId_clone: "clone s = Some item \<Longrightarrow> nodeId item = nodeId s"
  by (cases s) (auto split: option.splits)


text \<open>The loop of \<open>merge\<close> and \<open>unmerge\<close>, with the operation as a parameter.\<close>

definition bulkStep ::
  "(node cache \<Rightarrow> node \<Rightarrow> (node cache \<times> event list) option) \<Rightarrow> node option \<Rightarrow>
   (node cache \<times> event list) option \<Rightarrow> (node cache \<times> event list) option" where
  "bulkStep f item acc =
     (case acc of
        None \<Rightarrow> None
      | Some (c, evs) \<Rightarrow>
          (case item of
             None \<Rightarrow> None
           | Some it \<Rightarrow>
               (case f c it of None \<Rightarrow> None | Some (c1, evs1) \<Rightarrow> Some (c1, evs @ evs1))))"

lemma merge_bulk: "merge this other = fold (bulkStep add) (values_of other) (Some (this, []))"
  by (simp add: merge.simps bulkStep_def [abs_def])

lemma unmerge_bulk: "unmerge this other = fold (bulkStep remove) (values_of other) (Some (this, []))"
  by (simp add: unmerge.simps bulkStep_def [abs_def])


lemma bulkStep_None [simp]: "bulkStep f item None = None"
  by (simp add: bulkStep_def)

lemma bulkStep_undefined [simp]: "bulkStep f None acc = None"
  by (cases acc) (simp_all add: bulkStep_def)

lemma bulkStep_Some:
  "bulkStep f (Some it) (Some (c, evs)) =
     (case f c it of None \<Rightarrow> None | Some (c1, evs1) \<Rightarrow> Some (c1, evs @ evs1))"
  by (simp add: bulkStep_def)

lemma fold_bulkStep_None [simp]: "fold (bulkStep f) items None = None"
  by (induction items) simp_all

lemma fold_bulkStep_Cons:
  "fold (bulkStep f) (item # items) (Some (c, evs)) =
     (case item of
        None \<Rightarrow> None
      | Some it \<Rightarrow>
          (case f c it of
             None \<Rightarrow> None
           | Some (c1, evs1) \<Rightarrow> fold (bulkStep f) items (Some (c1, evs @ evs1))))"
proof (cases item)
  case None
  then show ?thesis by simp
next
  case (Some it)
  show ?thesis
  proof (cases "f c it")
    case None
    then show ?thesis using Some by (simp add: bulkStep_Some)
  next
    case (Some r)
    then show ?thesis using \<open>item = Some it\<close> by (cases r) (simp add: bulkStep_Some)
  qed
qed



text \<open>A property that every step keeps is kept by the loop.\<close>

lemma fold_bulkStep_SomeD:
  assumes "fold (bulkStep f) (item # items) (Some (c, evs)) = Some r"
  obtains it c1 e where "item = Some it" and "f c it = Some (c1, e)"
    and "fold (bulkStep f) items (Some (c1, evs @ e)) = Some r"
proof (cases item)
  case None
  then show ?thesis using assms by simp
next
  case (Some it)
  show ?thesis
  proof (cases "f c it")
    case None
    then show ?thesis using assms Some by (simp add: bulkStep_Some)
  next
    case fs: (Some r1)
    obtain c1 e where "r1 = (c1, e)" by (cases r1)
    then show ?thesis using assms Some fs that by (simp add: bulkStep_Some)
  qed
qed

lemma fold_bulkStep_invariant:
  assumes "fold (bulkStep f) items (Some (c, evs)) = Some (c', evs')"
    and "P c"
    and "\<And>c0 it c1 e. P c0 \<Longrightarrow> Some it \<in> set items \<Longrightarrow> f c0 it = Some (c1, e) \<Longrightarrow> P c1"
  shows "P c'"
  using assms
proof (induction items arbitrary: c evs)
  case Nil
  then show ?case by simp
next
  case (Cons item items)
  from Cons.prems(1) obtain it c1 e where
    it: "item = Some it" and f: "f c it = Some (c1, e)"
    and rest: "fold (bulkStep f) items (Some (c1, evs @ e)) = Some (c', evs')"
    by (rule fold_bulkStep_SomeD)
  have "P c1"
    by (rule Cons.prems(3) [OF Cons.prems(2) _ f]) (simp add: it)
  show ?case
  proof (rule Cons.IH [OF rest \<open>P c1\<close>])
    fix c0 it' c2 e'
    assume "P c0" "Some it' \<in> set items" "f c0 it' = Some (c2, e')"
    then show "P c2" using Cons.prems(3) [of c0 it' c2 e'] by simp
  qed
qed

definition grows :: "'n cache \<Rightarrow> 'n cache \<Rightarrow> bool" where
  "grows c c' = (changeId c \<le> changeId c' \<and> (changeId c' = changeId c \<longrightarrow> sheet c' = sheet c))"

lemma grows_refl [simp]: "grows c c"
  by (simp add: grows_def)

lemma grows_trans: "grows a b \<Longrightarrow> grows b c \<Longrightarrow> grows a c"
  by (auto simp: grows_def)



lemma addItem_grows: "addItem c s item stored = Some (c', evs) \<Longrightarrow> grows c c'"
  by (auto simp: addItem.simps grows_def Let_def split: if_splits option.splits prod.splits)

lemma add_grows: "add c s = Some (c', evs) \<Longrightarrow> grows c c'"
  by (auto simp: add.simps split: option.splits dest: addItem_grows)

lemma remove_grows: "remove c s = Some (c', evs) \<Longrightarrow> grows c c'"
  by (auto simp: remove.simps grows_def Let_def split: if_splits option.splits prod.splits)

lemma merge_grows:
  assumes "merge this other = Some (c', evs)"
  shows "grows this c'"
  using assms unfolding merge_bulk
proof (rule fold_bulkStep_invariant [where P = "grows this"])
  show "grows this this" by simp
  show "grows this c1" if "grows this c0" "add c0 it = Some (c1, e)" for c0 it c1 e
    using that add_grows [of c0 it c1 e] grows_trans by blast
qed

lemma unmerge_grows:
  assumes "unmerge this other = Some (c', evs)"
  shows "grows this c'"
  using assms unfolding unmerge_bulk
proof (rule fold_bulkStep_invariant [where P = "grows this"])
  show "grows this this" by simp
  show "grows this c1" if "grows this c0" "remove c0 it = Some (c1, e)" for c0 it c1 e
    using that remove_grows [of c0 it c1 e] grows_trans by blast
qed

lemma countOf_Cache [simp]:
  "countOf (Cache sh ci ks ch cs) k = (case map_of cs k of None \<Rightarrow> 0 | Some n \<Rightarrow> n)"
  by (simp add: countOf_def)

lemma countOf_update:
  "(case map_of (AList.update k n cs) k' of None \<Rightarrow> 0 | Some m \<Rightarrow> m) =
     (if k' = k then n else (case map_of cs k' of None \<Rightarrow> 0 | Some m \<Rightarrow> m))"
  by (simp add: update_conv')

lemma countOf_delete:
  "(case map_of (AList.delete k cs) k' of None \<Rightarrow> 0 | Some m \<Rightarrow> m) =
     (if k' = k then 0 else (case map_of cs k' of None \<Rightarrow> 0 | Some m \<Rightarrow> m))"
  by (simp add: delete_conv')

lemma cacheInv_keys: "cacheInv c \<Longrightarrow> k \<in> set (keys c) \<longleftrightarrow> countOf c k \<noteq> 0"
  using counted_iff [of c k] by (auto simp: cacheInv_def)

lemma cacheInv_stored:
  assumes "cacheInv c" and "k \<in> set (keys c)"
  shows "\<exists>item. map_of (children c) k = Some item \<and> nodeId item = k \<and>
           sheet c ! nat (indexOf (keys c) k) = getStyles item"
proof -
  let ?i = "nat (indexOf (keys c) k)"
  have i: "?i < length (keys c)" "keys c ! ?i = k"
    using indexOf_member [OF assms(2)] by simp_all
  have "aligned c" using assms(1) by (simp add: cacheInv_def)
  then show ?thesis using i unfolding aligned_iff by metis
qed

lemma cacheInv_not_stored: "cacheInv c \<Longrightarrow> k \<notin> set (keys c) \<Longrightarrow> map_of (children c) k = None"
  by (simp add: cacheInv_def counted_children)

lemma cacheInv_append:
  assumes "cacheInv c" and "k \<notin> set (keys c)" and "nodeId item = k" and "n \<noteq> 0"
  shows "cacheInv (Cache (sheet c @ [getStyles item]) ci (keys c @ [k])
                     (AList.update k item (children c)) (AList.update k n (counters c)))"
proof -
  have d: "distinct (keys c)" and cn: "counted c" and al: "aligned c"
    using assms(1) by (simp_all add: cacheInv_def)
  have 1: "distinct (keys c @ [k])" using d assms(2) by simp
  have 2: "counted (Cache (sheet c @ [getStyles item]) ci (keys c @ [k])
                     (AList.update k item (children c)) (AList.update k n (counters c)))"
    using cn assms(4)
    by (auto simp: counted_def countOf_update countOf_def dom_update)
  have len: "length (sheet c) = length (keys c)" using al by (simp add: aligned_iff)
  have 3: "aligned (Cache (sheet c @ [getStyles item]) ci (keys c @ [k])
                     (AList.update k item (children c)) (AList.update k n (counters c)))"
    unfolding aligned_iff
  proof (intro conjI allI impI)
    show "length (sheet (Cache (sheet c @ [getStyles item]) ci (keys c @ [k])
                     (AList.update k item (children c)) (AList.update k n (counters c)))) =
          length (keys (Cache (sheet c @ [getStyles item]) ci (keys c @ [k])
                     (AList.update k item (children c)) (AList.update k n (counters c))))"
      using len by simp
  next
    fix i
    assume "i < length (keys (Cache (sheet c @ [getStyles item]) ci (keys c @ [k])
                     (AList.update k item (children c)) (AList.update k n (counters c))))"
    then have i: "i < Suc (length (keys c))" by simp
    show "\<exists>it. map_of (children (Cache (sheet c @ [getStyles item]) ci (keys c @ [k])
                     (AList.update k item (children c)) (AList.update k n (counters c))))
                 (keys (Cache (sheet c @ [getStyles item]) ci (keys c @ [k])
                     (AList.update k item (children c)) (AList.update k n (counters c))) ! i) = Some it \<and>
               nodeId it = keys (Cache (sheet c @ [getStyles item]) ci (keys c @ [k])
                     (AList.update k item (children c)) (AList.update k n (counters c))) ! i \<and>
               sheet (Cache (sheet c @ [getStyles item]) ci (keys c @ [k])
                     (AList.update k item (children c)) (AList.update k n (counters c))) ! i = getStyles it"
    proof (cases "i < length (keys c)")
      case True
      then have "keys c ! i \<noteq> k" using assms(2) by (metis nth_mem)
      then show ?thesis
        using True al len unfolding aligned_iff
        by (simp add: nth_append update_conv')
    next
      case False
      then have "i = length (keys c)" using i by simp
      then show ?thesis
        using len assms(3) by (simp add: nth_append update_conv')
    qed
  qed
  from 1 2 3 show ?thesis by (simp add: cacheInv_def)
qed

lemma cacheInv_replace:
  assumes "cacheInv c" and "k \<in> set (keys c)" and "nodeId item1 = k" and "n \<noteq> 0"
  shows "cacheInv (Cache ((sheet c)[nat (indexOf (keys c) k) := getStyles item1]) ci (keys c)
                     (AList.update k item1 (children c)) (AList.update k n (counters c)))"
proof -
  let ?c' = "Cache ((sheet c)[nat (indexOf (keys c) k) := getStyles item1]) ci (keys c)
                     (AList.update k item1 (children c)) (AList.update k n (counters c))"
  let ?i = "nat (indexOf (keys c) k)"
  have d: "distinct (keys c)" and cn: "counted c" and al: "aligned c"
    using assms(1) by (simp_all add: cacheInv_def)
  have ik: "?i < length (keys c)" "keys c ! ?i = k"
    using indexOf_member [OF assms(2)] by simp_all
  have 2: "counted ?c'"
    using cn assms(2,4)
    by (auto simp: counted_def countOf_update countOf_def dom_update)
  have len: "length (sheet c) = length (keys c)" using al by (simp add: aligned_iff)
  have 3: "aligned ?c'"
    unfolding aligned_iff
  proof (intro conjI allI impI)
    show "length (sheet ?c') = length (keys ?c')" using len by simp
  next
    fix i
    assume "i < length (keys ?c')"
    then have i: "i < length (keys c)" by simp
    show "\<exists>it. map_of (children ?c') (keys ?c' ! i) = Some it \<and>
               nodeId it = keys ?c' ! i \<and> sheet ?c' ! i = getStyles it"
    proof (cases "i = ?i")
      case True
      then show ?thesis
        using ik len assms(3) by (simp add: update_conv')
    next
      case False
      then have "keys c ! i \<noteq> k"
        using d i ik by (metis nth_eq_iff_index_eq)
      then show ?thesis
        using False i al len unfolding aligned_iff
        by (simp add: update_conv')
    qed
  qed
  from d 2 3 show ?thesis by (simp add: cacheInv_def)
qed

lemma cacheInv_bump:
  assumes "cacheInv c" and "k \<in> set (keys c)" and "n \<noteq> 0"
  shows "cacheInv (Cache (sheet c) ci (keys c) (children c) (AList.update k n (counters c)))"
proof -
  have "counted (Cache (sheet c) ci (keys c) (children c) (AList.update k n (counters c)))"
    using assms by (auto simp: cacheInv_def counted_def countOf_update countOf_def dom_update)
  moreover have "aligned (Cache (sheet c) ci (keys c) (children c) (AList.update k n (counters c)))"
    using assms(1) by (simp add: cacheInv_def aligned_def)
  ultimately show ?thesis using assms(1) by (simp add: cacheInv_def)
qed

lemma distinct_remove_nth:
  assumes "distinct xs" and "i < length xs"
  shows "distinct (take i xs @ drop (Suc i) xs)"
    and "set (take i xs @ drop (Suc i) xs) = set xs - {xs ! i}"
proof -
  have xs: "xs = take i xs @ xs ! i # drop (Suc i) xs"
    using assms(2) by (rule id_take_nth_drop)
  have d: "distinct (take i xs @ xs ! i # drop (Suc i) xs)"
    using assms(1) xs by simp
  then show "distinct (take i xs @ drop (Suc i) xs)" by simp
  have "set xs = set (take i xs @ xs ! i # drop (Suc i) xs)" using xs by simp
  then show "set (take i xs @ drop (Suc i) xs) = set xs - {xs ! i}"
    using d by auto
qed

lemma nth_remove_nth:
  "j < length xs - 1 \<Longrightarrow> i < length xs \<Longrightarrow>
   (take i xs @ drop (Suc i) xs) ! j = (if j < i then xs ! j else xs ! Suc j)"
  by (auto simp: nth_append min_def)

lemma cacheInv_delete:
  assumes "cacheInv c" and "k \<in> set (keys c)"
  shows "cacheInv (Cache (take (nat (indexOf (keys c) k)) (sheet c) @
                          drop (Suc (nat (indexOf (keys c) k))) (sheet c)) ci
                     (take (nat (indexOf (keys c) k)) (keys c) @
                      drop (Suc (nat (indexOf (keys c) k))) (keys c))
                     (AList.delete k (children c)) (AList.delete k (counters c)))"
proof -
  let ?i = "nat (indexOf (keys c) k)"
  let ?ks = "take ?i (keys c) @ drop (Suc ?i) (keys c)"
  let ?sh = "take ?i (sheet c) @ drop (Suc ?i) (sheet c)"
  let ?c' = "Cache ?sh ci ?ks (AList.delete k (children c)) (AList.delete k (counters c))"
  have d: "distinct (keys c)" and cn: "counted c" and al: "aligned c"
    using assms(1) by (simp_all add: cacheInv_def)
  have ik: "?i < length (keys c)" "keys c ! ?i = k"
    using indexOf_member [OF assms(2)] by simp_all
  have len: "length (sheet c) = length (keys c)" using al by (simp add: aligned_iff)
  have dk: "distinct ?ks" and sk: "set ?ks = set (keys c) - {k}"
    using distinct_remove_nth [OF d ik(1)] ik(2) by simp_all
  have 2: "counted ?c'"
    unfolding counted_def
  proof (intro conjI ballI impI)
    fix k' assume "k' \<in> set (keys ?c')"
    then have "k' \<in> set (keys c)" "k' \<noteq> k" using sk by auto
    then show "countOf ?c' k' \<noteq> 0"
      using cn by (simp add: counted_def countOf_delete countOf_def)
  next
    fix k' assume "k' \<in> set (map fst (counters ?c'))"
    then have "k' \<in> set (map fst (counters c))" "k' \<noteq> k"
      using dom_delete_subset [of k "counters c"] delete_notin_dom [of k "counters c"] by auto
    then show "k' \<in> set (keys ?c')"
      using cn sk by (auto simp: counted_def)
  next
    fix k' assume "k' \<in> set (map fst (children ?c'))"
    then have "k' \<in> set (map fst (children c))" "k' \<noteq> k"
      using dom_delete_subset [of k "children c"] delete_notin_dom [of k "children c"] by auto
    then show "k' \<in> set (keys ?c')"
      using cn sk by (auto simp: counted_def)
  qed
  have 3: "aligned ?c'"
  proof -
    let ?P = "\<lambda>ch k text. case map_of ch k of
                               None \<Rightarrow> False
                             | Some item \<Rightarrow> nodeId item = k \<and> text = getStyles item"
    have a: "list_all2 (?P (children c)) (keys c) (sheet c)"
      using al by (simp add: aligned_def)
    have b: "list_all2 (?P (children c)) ?ks ?sh"
      using a by (intro list_all2_appendI list_all2_takeI list_all2_dropI)
    have "list_all2 (?P (AList.delete k (children c))) ?ks ?sh"
      using b
    proof (rule list.rel_mono_strong)
      fix z y
      assume "z \<in> set ?ks" and p: "?P (children c) z y"
      then have "z \<in> set (keys c) - {k}" by (simp only: sk)
      then have "z \<noteq> k" by simp
      then show "?P (AList.delete k (children c)) z y" using p by simp
    qed
    then show ?thesis by (simp add: aligned_def)
  qed
  from dk 2 3 show ?thesis by (simp add: cacheInv_def)
qed

lemma addItem_fresh:
  "countOf c (nodeId s) = 0 \<Longrightarrow>
   addItem c s item stored =
     Some (Cache (sheet c @ [getStyles item]) (changeId c + 1) (keys c @ [nodeId item])
             (AList.update (nodeId item) item (children c))
             (AList.update (nodeId s) 1 (counters c)),
           [AddEvent item (int (length (keys c)))])"
  by (simp add: addItem.simps Let_def)

lemma addItem_leaf:
  "countOf c (nodeId s) \<noteq> 0 \<Longrightarrow> cacheOf item = None \<or> cacheOf s = None \<Longrightarrow>
   addItem c s item stored =
     Some (Cache (sheet c) (changeId c) (keys c) (children c)
             (AList.update (nodeId s) (countOf c (nodeId s) + 1) (counters c)), [])"
  by (auto simp add: addItem.simps Let_def split: option.splits)

lemma addItem_merge:
  "countOf c (nodeId s) \<noteq> 0 \<Longrightarrow> cacheOf item = Some ic \<Longrightarrow> cacheOf s = Some sc \<Longrightarrow>
   addItem c s item stored =
     (case merge ic sc of
        None \<Rightarrow> None
      | Some (ic1, evs) \<Rightarrow>
          if changeId ic1 \<noteq> changeId ic
          then Some (Cache (splice1 (sheet c) (indexOf (keys c) (nodeId s)) [getStyles (setCache item ic1)])
                       (changeId c + 1) (keys c)
                       (if stored then AList.update (nodeId s) (setCache item ic1) (children c)
                        else children c)
                       (AList.update (nodeId s) (countOf c (nodeId s) + 1) (counters c)),
                     [ChangeEvent (setCache item ic1) (indexOf (keys c) (nodeId s))
                        (indexOf (keys c) (nodeId s))])
          else Some (Cache (sheet c) (changeId c) (keys c)
                       (if stored then AList.update (nodeId s) (setCache item ic1) (children c)
                        else children c)
                       (AList.update (nodeId s) (countOf c (nodeId s) + 1) (counters c)), []))"
  by (simp add: addItem.simps Let_def split: option.splits)

lemma add_not_stored:
  "map_of (children c) (nodeId s) = None \<Longrightarrow>
   add c s = (case clone s of None \<Rightarrow> None | Some item \<Rightarrow> addItem c s item False)"
  by (simp add: add.simps)

lemma add_stored:
  "map_of (children c) (nodeId s) = Some item \<Longrightarrow> add c s = addItem c s item True"
  by (simp add: add.simps)

text \<open>
  Adding a node whose id the cache holds: the stored entry is replaced in place, by a
  node of the same id whose text the sheet shows at the entry's index.
\<close>

lemma add_existing:
  assumes inv: "cacheInv c" and k: "nodeId s \<in> set (keys c)" and r: "add c s = Some (c', evs)"
  shows "\<exists>item1 ci.
           nodeId item1 = nodeId s \<and>
           c' = Cache ((sheet c)[nat (indexOf (keys c) (nodeId s)) := getStyles item1]) ci (keys c)
                  (AList.update (nodeId s) item1 (children c))
                  (AList.update (nodeId s) (countOf c (nodeId s) + 1) (counters c)) \<and>
           (evs = [] \<or> evs = [ChangeEvent item1 (indexOf (keys c) (nodeId s))
                                  (indexOf (keys c) (nodeId s))])"
proof -
  let ?k = "nodeId s"
  let ?i = "indexOf (keys c) ?k"
  obtain item where st: "map_of (children c) ?k = Some item" and idk: "nodeId item = ?k"
    and tx: "sheet c ! nat ?i = getStyles item"
    using cacheInv_stored [OF inv k] by blast
  have cnt: "countOf c ?k \<noteq> 0" using inv k by (simp add: cacheInv_keys)
  have i: "0 \<le> ?i" "nat ?i < length (keys c)" using indexOf_member [OF k] by simp_all
  have len: "length (sheet c) = length (keys c)"
    using inv by (simp add: cacheInv_def aligned_iff)
  have triv: "AList.update ?k item (children c) = children c"
    using st by (rule update_triv)
  have same: "(sheet c)[nat ?i := getStyles item] = sheet c"
    using tx by (metis list_update_id)
  have r': "addItem c s item True = Some (c', evs)" using r st by (simp add: add_stored)
  show ?thesis
  proof (cases "cacheOf item = None \<or> cacheOf s = None")
    case True
    have "c' = Cache ((sheet c)[nat ?i := getStyles item]) (changeId c) (keys c)
                  (AList.update ?k item (children c))
                  (AList.update ?k (countOf c ?k + 1) (counters c))" and "evs = []"
      using r' addItem_leaf [OF cnt True, of True] by (simp_all add: triv same)
    then show ?thesis using idk by blast
  next
    case False
    then obtain ic sc where ic: "cacheOf item = Some ic" and sc: "cacheOf s = Some sc" by auto
    from r' obtain ic1 evs1 where m: "merge ic sc = Some (ic1, evs1)"
      unfolding addItem_merge [OF cnt ic sc] by (auto split: option.splits)
    let ?item1 = "setCache item ic1"
    have id1: "nodeId ?item1 = ?k" using idk by simp
    show ?thesis
    proof (cases "changeId ic1 = changeId ic")
      case True
      then have "sheet ic1 = sheet ic" using merge_grows [OF m] by (simp add: grows_def)
      then have "getStyles ?item1 = getStyles item" using ic by (rule getStyles_setCache [rotated])
      then have "(sheet c)[nat ?i := getStyles ?item1] = sheet c" using same by simp
      moreover have "c' = Cache (sheet c) (changeId c) (keys c)
                  (AList.update ?k ?item1 (children c))
                  (AList.update ?k (countOf c ?k + 1) (counters c))" and "evs = []"
        using r' m True unfolding addItem_merge [OF cnt ic sc] by simp_all
      ultimately show ?thesis using id1 by (metis (no_types))
    next
      case False
      have "splice1 (sheet c) ?i [getStyles ?item1] = (sheet c)[nat ?i := getStyles ?item1]"
        using i len by (simp add: splice1_replace)
      then have "c' = Cache ((sheet c)[nat ?i := getStyles ?item1]) (changeId c + 1) (keys c)
                  (AList.update ?k ?item1 (children c))
                  (AList.update ?k (countOf c ?k + 1) (counters c))"
        and "evs = [ChangeEvent ?item1 ?i ?i]"
        using r' m False unfolding addItem_merge [OF cnt ic sc] by simp_all
      then show ?thesis using id1 by blast
    qed
  qed
qed

text \<open>Adding a node whose id the cache does not hold: a clone is appended.\<close>

lemma add_new:
  assumes inv: "cacheInv c" and k: "nodeId s \<notin> set (keys c)" and r: "add c s = Some (c', evs)"
  shows "\<exists>item. clone s = Some item \<and> nodeId item = nodeId s \<and>
           c' = Cache (sheet c @ [getStyles item]) (changeId c + 1) (keys c @ [nodeId s])
                  (AList.update (nodeId s) item (children c))
                  (AList.update (nodeId s) 1 (counters c)) \<and>
           evs = [AddEvent item (int (length (keys c)))]"
proof -
  have st: "map_of (children c) (nodeId s) = None" using inv k by (rule cacheInv_not_stored)
  have cnt: "countOf c (nodeId s) = 0" using inv k by (simp add: cacheInv_keys)
  from r obtain item where cl: "clone s = Some item" and a: "addItem c s item False = Some (c', evs)"
    unfolding add_not_stored [OF st] by (auto split: option.splits)
  have "nodeId item = nodeId s" using cl by (rule nodeId_clone)
  then show ?thesis
    using a cl unfolding addItem_fresh [OF cnt] by simp
qed

lemma add_cacheInv:
  assumes inv: "cacheInv c" and r: "add c s = Some (c', evs)"
  shows "cacheInv c'"
proof (cases "nodeId s \<in> set (keys c)")
  case True
  obtain item1 ci where "nodeId item1 = nodeId s"
    and "c' = Cache ((sheet c)[nat (indexOf (keys c) (nodeId s)) := getStyles item1]) ci (keys c)
                  (AList.update (nodeId s) item1 (children c))
                  (AList.update (nodeId s) (countOf c (nodeId s) + 1) (counters c))"
    using add_existing [OF inv True r] by blast
  then show ?thesis
    using cacheInv_replace [OF inv True, of item1 "countOf c (nodeId s) + 1" ci] by simp
next
  case False
  obtain item where "nodeId item = nodeId s"
    and "c' = Cache (sheet c @ [getStyles item]) (changeId c + 1) (keys c @ [nodeId s])
                  (AList.update (nodeId s) item (children c))
                  (AList.update (nodeId s) 1 (counters c))"
    using add_new [OF inv False r] by blast
  then show ?thesis
    using cacheInv_append [OF inv False, of item 1 "changeId c + 1"] by simp
qed

lemma remove_absent: "countOf c (nodeId s) = 0 \<Longrightarrow> remove c s = Some (c, [])"
  by (simp add: remove.simps)

text \<open>Removing the last reference of an id: the entry and its slot are deleted.\<close>

lemma remove_last:
  assumes inv: "cacheInv c" and cnt: "countOf c (nodeId s) = 1"
  shows "\<exists>item. map_of (children c) (nodeId s) = Some item \<and>
           remove c s =
             Some (Cache (take (nat (indexOf (keys c) (nodeId s))) (sheet c) @
                          drop (Suc (nat (indexOf (keys c) (nodeId s)))) (sheet c))
                     (changeId c + 1)
                     (take (nat (indexOf (keys c) (nodeId s))) (keys c) @
                      drop (Suc (nat (indexOf (keys c) (nodeId s)))) (keys c))
                     (AList.delete (nodeId s) (children c))
                     (AList.delete (nodeId s) (counters c)),
                   [RemoveEvent item (indexOf (keys c) (nodeId s))])"
proof -
  let ?k = "nodeId s"
  let ?i = "indexOf (keys c) ?k"
  have k: "?k \<in> set (keys c)" using inv cnt by (simp add: cacheInv_keys)
  obtain item where st: "map_of (children c) ?k = Some item" and idk: "nodeId item = ?k"
    using cacheInv_stored [OF inv k] by blast
  have i: "0 \<le> ?i" "nat ?i < length (keys c)" using indexOf_member [OF k] by simp_all
  have len: "length (sheet c) = length (keys c)"
    using inv by (simp add: cacheInv_def aligned_iff)
  have "remove c s =
          Some (Cache (splice1 (sheet c) ?i []) (changeId c + 1) (splice1 (keys c) ?i [])
                  (AList.delete ?k (children c)) (AList.delete ?k (counters c)),
                [RemoveEvent item ?i])"
    using cnt st idk by (simp add: remove.simps Let_def)
  then show ?thesis
    using st i len by (simp add: splice1_delete)
qed

text \<open>Removing one of several references: the entry stays, replaced in place.\<close>

lemma remove_shared:
  assumes inv: "cacheInv c" and cnt: "1 < countOf c (nodeId s)" and r: "remove c s = Some (c', evs)"
  shows "\<exists>item1 ci.
           nodeId item1 = nodeId s \<and>
           c' = Cache ((sheet c)[nat (indexOf (keys c) (nodeId s)) := getStyles item1]) ci (keys c)
                  (AList.update (nodeId s) item1 (children c))
                  (AList.update (nodeId s) (countOf c (nodeId s) - 1) (counters c)) \<and>
           (evs = [] \<or> evs = [ChangeEvent item1 (indexOf (keys c) (nodeId s))
                                  (indexOf (keys c) (nodeId s))])"
proof -
  let ?k = "nodeId s"
  let ?i = "indexOf (keys c) ?k"
  let ?n = "countOf c ?k - 1"
  have k: "?k \<in> set (keys c)" using inv cnt by (simp add: cacheInv_keys)
  obtain item where st: "map_of (children c) ?k = Some item" and idk: "nodeId item = ?k"
    and tx: "sheet c ! nat ?i = getStyles item"
    using cacheInv_stored [OF inv k] by blast
  have i: "0 \<le> ?i" "nat ?i < length (keys c)" using indexOf_member [OF k] by simp_all
  have len: "length (sheet c) = length (keys c)"
    using inv by (simp add: cacheInv_def aligned_iff)
  have triv: "AList.update ?k item (children c) = children c"
    using st by (rule update_triv)
  have same: "(sheet c)[nat ?i := getStyles item] = sheet c"
    using tx by (metis list_update_id)
  have c0: "countOf c ?k \<noteq> 0" "countOf c ?k \<noteq> 1" using cnt by simp_all
  show ?thesis
  proof (cases "cacheOf item = None \<or> cacheOf s = None")
    case True
    have "remove c s = Some (Cache (sheet c) (changeId c) (keys c) (children c)
                               (AList.update ?k ?n (counters c)), [])"
      using True c0 st by (auto simp add: remove.simps Let_def split: option.splits)
    then have "c' = Cache ((sheet c)[nat ?i := getStyles item]) (changeId c) (keys c)
                  (AList.update ?k item (children c)) (AList.update ?k ?n (counters c))"
      and "evs = []"
      using r by (simp_all add: triv same)
    then show ?thesis using idk by blast
  next
    case False
    then obtain ic sc where ic: "cacheOf item = Some ic" and sc: "cacheOf s = Some sc" by auto
    have eq: "remove c s =
       (case unmerge ic sc of
          None \<Rightarrow> None
        | Some (ic1, evs1) \<Rightarrow>
            if changeId ic1 \<noteq> changeId ic
            then Some (Cache (splice1 (sheet c) ?i [getStyles (setCache item ic1)])
                         (changeId c + 1) (keys c)
                         (AList.update ?k (setCache item ic1) (children c))
                         (AList.update ?k ?n (counters c)),
                       [ChangeEvent (setCache item ic1) ?i ?i])
            else Some (Cache (sheet c) (changeId c) (keys c)
                         (AList.update ?k (setCache item ic1) (children c))
                         (AList.update ?k ?n (counters c)), []))"
      using c0 st ic sc idk by (simp add: remove.simps Let_def split: option.splits)
    from r obtain ic1 evs1 where m: "unmerge ic sc = Some (ic1, evs1)"
      unfolding eq by (auto split: option.splits)
    let ?item1 = "setCache item ic1"
    have id1: "nodeId ?item1 = ?k" using idk by simp
    show ?thesis
    proof (cases "changeId ic1 = changeId ic")
      case True
      then have "sheet ic1 = sheet ic" using unmerge_grows [OF m] by (simp add: grows_def)
      then have "getStyles ?item1 = getStyles item" using ic by (rule getStyles_setCache [rotated])
      then have "(sheet c)[nat ?i := getStyles ?item1] = sheet c" using same by simp
      moreover have "c' = Cache (sheet c) (changeId c) (keys c)
                  (AList.update ?k ?item1 (children c)) (AList.update ?k ?n (counters c))"
        and "evs = []"
        using r m True unfolding eq by simp_all
      ultimately show ?thesis using id1 by (metis (no_types))
    next
      case False
      have "splice1 (sheet c) ?i [getStyles ?item1] = (sheet c)[nat ?i := getStyles ?item1]"
        using i len by (simp add: splice1_replace)
      then have "c' = Cache ((sheet c)[nat ?i := getStyles ?item1]) (changeId c + 1) (keys c)
                  (AList.update ?k ?item1 (children c)) (AList.update ?k ?n (counters c))"
        and "evs = [ChangeEvent ?item1 ?i ?i]"
        using r m False unfolding eq by simp_all
      then show ?thesis using id1 by blast
    qed
  qed
qed

lemma remove_cacheInv:
  assumes inv: "cacheInv c" and r: "remove c s = Some (c', evs)"
  shows "cacheInv c'"
proof -
  consider "countOf c (nodeId s) = 0" | "countOf c (nodeId s) = 1" | "1 < countOf c (nodeId s)"
    by linarith
  then show ?thesis
  proof cases
    case 1
    then show ?thesis using inv r by (simp add: remove_absent)
  next
    case 2
    then have k: "nodeId s \<in> set (keys c)" using inv by (simp add: cacheInv_keys)
    show ?thesis
      using remove_last [OF inv 2] r cacheInv_delete [OF inv k, of "changeId c + 1"] by auto
  next
    case 3
    then have k: "nodeId s \<in> set (keys c)" using inv by (simp add: cacheInv_keys)
    obtain item1 ci where "nodeId item1 = nodeId s"
      and "c' = Cache ((sheet c)[nat (indexOf (keys c) (nodeId s)) := getStyles item1]) ci (keys c)
                  (AList.update (nodeId s) item1 (children c))
                  (AList.update (nodeId s) (countOf c (nodeId s) - 1) (counters c))"
      using remove_shared [OF inv 3 r] by blast
    then show ?thesis
      using cacheInv_replace [OF inv k, of item1 "countOf c (nodeId s) - 1" ci] 3 by simp
  qed
qed

lemma cacheInv_empty: "cacheInv emptyCache"
  by (simp add: cacheInv_def counted_def aligned_def emptyCache_def)

section \<open>Well-formed nodes\<close>

text \<open>
  A node is well formed when the cache it owns satisfies the invariant and the nodes
  stored in it are well formed in turn. The nodes that the program builds are of this
  kind, and on them no operation reads a missing child.
\<close>

function nodeInv :: "node \<Rightarrow> bool" where
  "nodeInv (Selector selector ident) = True"
| "nodeInv (Style style ident c) = (cacheInv c \<and> (\<forall>x \<in> set (children c). nodeInv (snd x)))"
| "nodeInv (Rule rule style ident c) = (cacheInv c \<and> (\<forall>x \<in> set (children c). nodeInv (snd x)))"
  by pat_completeness auto
termination
proof (relation "measure size")
  show "wf (measure size)" by simp
next
  fix style ident :: string and c :: "node cache" and x :: "string \<times> node"
  assume "x \<in> set (children c)"
  then have "size (snd x) < Suc (size_list (size_prod (\<lambda>x. 0) size) (children c))"
    using alist_entry_size [of "fst x" "snd x" "children c"] by simp
  then show "(snd x, Style style ident c) \<in> measure size" by (cases c) simp
next
  fix rule style ident :: string and c :: "node cache" and x :: "string \<times> node"
  assume "x \<in> set (children c)"
  then have "size (snd x) < Suc (size_list (size_prod (\<lambda>x. 0) size) (children c))"
    using alist_entry_size [of "fst x" "snd x" "children c"] by simp
  then show "(snd x, Rule rule style ident c) \<in> measure size" by (cases c) simp
qed

definition deepInv :: "node cache \<Rightarrow> bool" where
  "deepInv c = (cacheInv c \<and> (\<forall>x \<in> set (children c). nodeInv (snd x)))"

lemma nodeInv_cacheOf: "nodeInv n \<Longrightarrow> cacheOf n = Some c \<Longrightarrow> deepInv c"
  by (cases n) (auto simp: deepInv_def)

lemma nodeInv_setCache: "cacheOf n = Some c0 \<Longrightarrow> deepInv c \<Longrightarrow> nodeInv (setCache n c)"
  by (cases n) (auto simp: deepInv_def)

lemma deepInv_empty: "deepInv emptyCache"
  using cacheInv_empty by (simp add: deepInv_def emptyCache_def)

lemma deepInv_cacheInv: "deepInv c \<Longrightarrow> cacheInv c"
  by (simp add: deepInv_def)

lemma set_update_subset: "set (AList.update k v al) \<subseteq> insert (k, v) (set al)"
  by (induction al) auto

lemma set_delete_subset: "set (AList.delete k al) \<subseteq> set al"
  by (induction al) auto

lemma deepInv_values:
  assumes "deepInv c" and "x \<in> set (values_of c)"
  shows "\<exists>it. x = Some it \<and> nodeInv it"
proof -
  from assms(2) obtain k where k: "k \<in> set (keys c)" and x: "x = map_of (children c) k"
    by (auto simp: values_of_def)
  obtain item where it: "map_of (children c) k = Some item"
    using cacheInv_stored [OF deepInv_cacheInv [OF assms(1)] k] by blast
  then have "(k, item) \<in> set (children c)" by (rule map_of_SomeD)
  then have "nodeInv item" using assms(1) by (auto simp: deepInv_def)
  then show ?thesis using x it by simp
qed

lemma fold_bulkStep_success:
  assumes "deepInv c"
    and "\<And>x. x \<in> set items \<Longrightarrow> \<exists>it. x = Some it \<and> A it"
    and "\<And>c0 it. deepInv c0 \<Longrightarrow> A it \<Longrightarrow> Some it \<in> set items \<Longrightarrow>
           \<exists>c1 e. f c0 it = Some (c1, e) \<and> deepInv c1"
  shows "\<exists>c' evs'. fold (bulkStep f) items (Some (c, evs)) = Some (c', evs') \<and> deepInv c'"
  using assms
proof (induction items arbitrary: c evs)
  case Nil
  then show ?case by simp
next
  case (Cons x items)
  obtain it where x: "x = Some it" and a: "A it" using Cons.prems(2) [of x] by auto
  obtain c1 e where f: "f c it = Some (c1, e)" and d: "deepInv c1"
    using Cons.prems(3) [OF Cons.prems(1) a] x by auto
  have "\<exists>c' evs'. fold (bulkStep f) items (Some (c1, evs @ e)) = Some (c', evs') \<and> deepInv c'"
  proof (rule Cons.IH [OF d])
    fix y assume "y \<in> set items"
    then show "\<exists>it. y = Some it \<and> A it" using Cons.prems(2) [of y] by simp
  next
    fix c0 it' assume "deepInv c0" "A it'" "Some it' \<in> set items"
    then show "\<exists>c1 e. f c0 it' = Some (c1, e) \<and> deepInv c1"
      using Cons.prems(3) [of c0 it'] by simp
  qed
  then show ?case
    using x f by (simp add: bulkStep_Some)
qed

lemma deepInv_update:
  assumes "cacheInv c'" and "children c' = AList.update k item (children c)"
    and "deepInv c" and "nodeInv item"
  shows "deepInv c'"
proof -
  have "\<forall>x \<in> set (children c'). nodeInv (snd x)"
  proof
    fix x assume "x \<in> set (children c')"
    then have "x = (k, item) \<or> x \<in> set (children c)"
      using set_update_subset [of k item "children c"] assms(2) by auto
    then show "nodeInv (snd x)" using assms(3,4) by (auto simp: deepInv_def)
  qed
  then show ?thesis using assms(1) by (simp add: deepInv_def)
qed

lemma deepInv_same_children:
  assumes "cacheInv c'" and "children c' = children c" and "deepInv c"
  shows "deepInv c'"
  using assms by (simp add: deepInv_def)

lemma deepInv_delete:
  assumes "cacheInv c'" and "children c' = AList.delete k (children c)" and "deepInv c"
  shows "deepInv c'"
proof -
  have "\<forall>x \<in> set (children c'). nodeInv (snd x)"
    using set_delete_subset [of k "children c"] assms(2,3) by (auto simp: deepInv_def)
  then show ?thesis using assms(1) by (simp add: deepInv_def)
qed

lemma deepInv_stored:
  assumes "deepInv c" and "map_of (children c) k = Some item"
  shows "nodeInv item"
proof -
  have "(k, item) \<in> set (children c)" using assms(2) by (rule map_of_SomeD)
  then show ?thesis using assms(1) by (auto simp: deepInv_def)
qed

text \<open>On well-formed nodes \<open>add\<close> returns, and the cache stays well formed.\<close>

lemma add_success:
  "deepInv c \<Longrightarrow> nodeInv s \<Longrightarrow> \<exists>c' evs. add c s = Some (c', evs) \<and> deepInv c'"
proof (induction s arbitrary: c rule: measure_induct_rule [where f = size])
  case (less s)
  let ?k = "nodeId s"
  have inv: "cacheInv c" using less.prems(1) by (rule deepInv_cacheInv)
  have M: "\<exists>c' e. merge this sc = Some (c', e) \<and> deepInv c'"
    if sc: "cacheOf s = Some sc" and dt: "deepInv this" for this sc
    unfolding merge_bulk
  proof (rule fold_bulkStep_success [where A = "\<lambda>it. nodeInv it \<and> size it < size s"])
    show "deepInv this" by (rule dt)
  next
    fix x assume x: "x \<in> set (values_of sc)"
    have "deepInv sc" using less.prems(2) sc by (rule nodeInv_cacheOf)
    then obtain it where it: "x = Some it" "nodeInv it" using deepInv_values x by blast
    then have "size it < size_cache size sc" using x values_of_size by blast
    also have "\<dots> < size s" using sc by (rule cacheOf_size)
    finally show "\<exists>it. x = Some it \<and> nodeInv it \<and> size it < size s" using it by blast
  next
    fix c0 it
    assume "deepInv c0" "nodeInv it \<and> size it < size s"
    then show "\<exists>c1 e. add c0 it = Some (c1, e) \<and> deepInv c1"
      using less.IH [of it c0] by blast
  qed
  have C: "\<exists>item. clone s = Some item \<and> nodeInv item \<and> nodeId item = ?k"
  proof (cases s)
    case (Selector selector ident)
    then show ?thesis by simp
  next
    case (Style style ident c0)
    then obtain c1 e where "merge emptyCache c0 = Some (c1, e)" "deepInv c1"
      using M [of c0 emptyCache] deepInv_empty by auto
    then show ?thesis using Style by (simp add: deepInv_def)
  next
    case (Rule rule style ident c0)
    then obtain c1 e where "merge emptyCache c0 = Some (c1, e)" "deepInv c1"
      using M [of c0 emptyCache] deepInv_empty by auto
    then show ?thesis using Rule by (simp add: deepInv_def)
  qed
  show ?case
  proof (cases "?k \<in> set (keys c)")
    case False
    obtain item where cl: "clone s = Some item" and ni: "nodeInv item" and idk: "nodeId item = ?k"
      using C by blast
    have st: "map_of (children c) ?k = None" using inv False by (rule cacheInv_not_stored)
    have cnt: "countOf c ?k = 0" using inv False by (simp add: cacheInv_keys)
    let ?c' = "Cache (sheet c @ [getStyles item]) (changeId c + 1) (keys c @ [nodeId item])
                 (AList.update (nodeId item) item (children c)) (AList.update ?k 1 (counters c))"
    have r: "add c s = Some (?c', [AddEvent item (int (length (keys c)))])"
      using cl by (simp add: add_not_stored [OF st] addItem_fresh [OF cnt])
    have "cacheInv ?c'" using inv r by (rule add_cacheInv)
    then have "deepInv ?c'"
      by (rule deepInv_update [where k = "nodeId item" and item = item and c = c])
         (simp_all add: less.prems(1) ni)
    then show ?thesis using r by blast
  next
    case True
    obtain item where st: "map_of (children c) ?k = Some item" and idk: "nodeId item = ?k"
      using cacheInv_stored [OF inv True] by blast
    have ni: "nodeInv item" using less.prems(1) st by (rule deepInv_stored)
    have cnt: "countOf c ?k \<noteq> 0" using inv True by (simp add: cacheInv_keys)
    show ?thesis
    proof (cases "cacheOf item = None \<or> cacheOf s = None")
      case leaf: True
      let ?c' = "Cache (sheet c) (changeId c) (keys c) (children c)
                   (AList.update ?k (countOf c ?k + 1) (counters c))"
      have r: "add c s = Some (?c', [])"
        using addItem_leaf [OF cnt leaf, of True] by (simp add: add_stored [OF st])
      have "cacheInv ?c'" using inv r by (rule add_cacheInv)
      then have "deepInv ?c'"
        by (rule deepInv_same_children [where c = c]) (simp_all add: less.prems(1))
      then show ?thesis using r by blast
    next
      case False
      then obtain ic sc where ic: "cacheOf item = Some ic" and sc: "cacheOf s = Some sc" by auto
      have "deepInv ic" using ni ic by (rule nodeInv_cacheOf)
      then obtain ic1 e where m: "merge ic sc = Some (ic1, e)" and d1: "deepInv ic1"
        using M [OF sc] by blast
      have n1: "nodeInv (setCache item ic1)" using ic d1 by (rule nodeInv_setCache)
      obtain c' evs where r: "add c s = Some (c', evs)"
        and ch: "children c' = AList.update ?k (setCache item ic1) (children c)"
        using m by (cases "changeId ic1 = changeId ic")
          (simp_all add: add_stored [OF st] addItem_merge [OF cnt ic sc])
      have "cacheInv c'" using inv r by (rule add_cacheInv)
      then have "deepInv c'" using ch less.prems(1) n1 by (rule deepInv_update)
      then show ?thesis using r by blast
    qed
  qed
qed

lemma merge_success:
  assumes "deepInv this" and "deepInv other"
  shows "\<exists>c' evs. merge this other = Some (c', evs) \<and> deepInv c'"
  unfolding merge_bulk
proof (rule fold_bulkStep_success [where A = nodeInv])
  show "deepInv this" by (rule assms(1))
next
  fix x assume "x \<in> set (values_of other)"
  then show "\<exists>it. x = Some it \<and> nodeInv it" using assms(2) deepInv_values by blast
next
  fix c0 it assume "deepInv c0" "nodeInv it"
  then show "\<exists>c1 e. add c0 it = Some (c1, e) \<and> deepInv c1" by (rule add_success)
qed

text \<open>On well-formed nodes \<open>remove\<close> returns, and the cache stays well formed.\<close>

lemma remove_success:
  "deepInv c \<Longrightarrow> nodeInv s \<Longrightarrow> \<exists>c' evs. remove c s = Some (c', evs) \<and> deepInv c'"
proof (induction s arbitrary: c rule: measure_induct_rule [where f = size])
  case (less s)
  let ?k = "nodeId s"
  have inv: "cacheInv c" using less.prems(1) by (rule deepInv_cacheInv)
  have M: "\<exists>c' e. unmerge this sc = Some (c', e) \<and> deepInv c'"
    if sc: "cacheOf s = Some sc" and dt: "deepInv this" for this sc
    unfolding unmerge_bulk
  proof (rule fold_bulkStep_success [where A = "\<lambda>it. nodeInv it \<and> size it < size s"])
    show "deepInv this" by (rule dt)
  next
    fix x assume x: "x \<in> set (values_of sc)"
    have "deepInv sc" using less.prems(2) sc by (rule nodeInv_cacheOf)
    then obtain it where it: "x = Some it" "nodeInv it" using deepInv_values x by blast
    then have "size it < size_cache size sc" using x values_of_size by blast
    also have "\<dots> < size s" using sc by (rule cacheOf_size)
    finally show "\<exists>it. x = Some it \<and> nodeInv it \<and> size it < size s" using it by blast
  next
    fix c0 it
    assume "deepInv c0" "nodeInv it \<and> size it < size s"
    then show "\<exists>c1 e. remove c0 it = Some (c1, e) \<and> deepInv c1"
      using less.IH [of it c0] by blast
  qed
  consider "countOf c ?k = 0" | "countOf c ?k = 1" | "1 < countOf c ?k" by linarith
  then show ?case
  proof cases
    case 1
    then show ?thesis using less.prems(1) by (simp add: remove_absent)
  next
    case 2
    obtain c' evs where r: "remove c s = Some (c', evs)"
      and ch: "children c' = AList.delete ?k (children c)"
      using remove_last [OF inv 2] by auto
    have "cacheInv c'" using inv r by (rule remove_cacheInv)
    then have "deepInv c'" using ch less.prems(1) by (rule deepInv_delete)
    then show ?thesis using r by blast
  next
    case 3
    then have k: "?k \<in> set (keys c)" using inv by (simp add: cacheInv_keys)
    obtain item where st: "map_of (children c) ?k = Some item" and idk: "nodeId item = ?k"
      using cacheInv_stored [OF inv k] by blast
    have ni: "nodeInv item" using less.prems(1) st by (rule deepInv_stored)
    have c0: "countOf c ?k \<noteq> 0" "countOf c ?k \<noteq> 1" using 3 by simp_all
    show ?thesis
    proof (cases "cacheOf item = None \<or> cacheOf s = None")
      case True
      let ?c' = "Cache (sheet c) (changeId c) (keys c) (children c)
                   (AList.update ?k (countOf c ?k - 1) (counters c))"
      have r: "remove c s = Some (?c', [])"
        using True c0 st by (auto simp add: remove.simps Let_def split: option.splits)
      have "cacheInv ?c'" using inv r by (rule remove_cacheInv)
      then have "deepInv ?c'"
        by (rule deepInv_same_children [where c = c]) (simp_all add: less.prems(1))
      then show ?thesis using r by blast
    next
      case False
      then obtain ic sc where ic: "cacheOf item = Some ic" and sc: "cacheOf s = Some sc" by auto
      have "deepInv ic" using ni ic by (rule nodeInv_cacheOf)
      then obtain ic1 e where m: "unmerge ic sc = Some (ic1, e)" and d1: "deepInv ic1"
        using M [OF sc] by blast
      have n1: "nodeInv (setCache item ic1)" using ic d1 by (rule nodeInv_setCache)
      obtain c' evs where r: "remove c s = Some (c', evs)"
        and ch: "children c' = AList.update ?k (setCache item ic1) (children c)"
        using m c0 st ic sc idk by (cases "changeId ic1 = changeId ic")
          (simp_all add: remove.simps Let_def)
      have "cacheInv c'" using inv r by (rule remove_cacheInv)
      then have "deepInv c'" using ch less.prems(1) n1 by (rule deepInv_update)
      then show ?thesis using r by blast
    qed
  qed
qed

section \<open>Sequences of cache operations\<close>

datatype op = Add node | Remove node

fun opNode :: "op \<Rightarrow> node" where
  "opNode (Add s) = s"
| "opNode (Remove s) = s"

fun applyOp :: "node cache \<Rightarrow> op \<Rightarrow> (node cache \<times> event list) option" where
  "applyOp c (Add s) = add c s"
| "applyOp c (Remove s) = remove c s"

fun run :: "node cache \<Rightarrow> op list \<Rightarrow> (node cache \<times> event list) option" where
  "run c [] = Some (c, [])"
| "run c (x # ops) =
     (case applyOp c x of
        None \<Rightarrow> None
      | Some (c1, evs1) \<Rightarrow>
          (case run c1 ops of
             None \<Rightarrow> None
           | Some (c2, evs2) \<Rightarrow> Some (c2, evs1 @ evs2)))"

lemma applyOp_cacheInv: "cacheInv c \<Longrightarrow> applyOp c x = Some (c', evs) \<Longrightarrow> cacheInv c'"
  by (cases x) (auto intro: add_cacheInv remove_cacheInv)

lemma run_cacheInv: "cacheInv c \<Longrightarrow> run c ops = Some (c', evs) \<Longrightarrow> cacheInv c'"
proof (induction ops arbitrary: c evs)
  case Nil
  then show ?case by simp
next
  case (Cons x ops)
  from Cons.prems(2) obtain c1 e1 e2 where a: "applyOp c x = Some (c1, e1)"
    and r: "run c1 ops = Some (c', e2)"
    by (auto split: option.splits)
  have "cacheInv c1" using Cons.prems(1) a by (rule applyOp_cacheInv)
  then show ?case using r by (rule Cons.IH)
qed

lemma applyOp_success:
  "deepInv c \<Longrightarrow> nodeInv (opNode x) \<Longrightarrow> \<exists>c' evs. applyOp c x = Some (c', evs) \<and> deepInv c'"
proof (cases x)
  case (Add s)
  assume "deepInv c" "nodeInv (opNode x)"
  then show ?thesis using Add add_success [of c s] by simp
next
  case (Remove s)
  assume "deepInv c" "nodeInv (opNode x)"
  then show ?thesis using Remove remove_success [of c s] by simp
qed

lemma run_success:
  "deepInv c \<Longrightarrow> \<forall>x \<in> set ops. nodeInv (opNode x) \<Longrightarrow>
   \<exists>c' evs. run c ops = Some (c', evs) \<and> deepInv c'"
proof (induction ops arbitrary: c)
  case Nil
  then show ?case by simp
next
  case (Cons x ops)
  obtain c1 e1 where a: "applyOp c x = Some (c1, e1)" and d: "deepInv c1"
    using applyOp_success [OF Cons.prems(1), of x] Cons.prems(2) by auto
  obtain c2 e2 where "run c1 ops = Some (c2, e2)" "deepInv c2"
    using Cons.IH [OF d] Cons.prems(2) by auto
  then show ?case using a by simp
qed

text \<open>
  Claim C8. In every cache, after every \<open>add\<close> and every \<open>remove\<close>, the key list and the
  sheet have the same length and are aligned by index: the text at index \<open>i\<close> of the sheet
  is the rendered text of the stored node whose id is at index \<open>i\<close> of the key list. A
  cache starts empty and changes by \<open>add\<close> and \<open>remove\<close> only (\<open>merge\<close>, \<open>unmerge\<close> and
  \<open>clone\<close> are loops of them), so the caches are the results of the runs of operations
  from the empty cache; the operations return on well-formed nodes.
\<close>

theorem sheet_aligned:
  "(run emptyCache ops = Some (c, evs) \<longrightarrow>
      length (sheet c) = length (keys c) \<and>
      (\<forall>i < length (keys c). \<exists>item.
          map_of (children c) (keys c ! i) = Some item \<and> nodeId item = keys c ! i \<and>
          sheet c ! i = getStyles item))
   \<and> ((\<forall>x \<in> set ops. nodeInv (opNode x)) \<longrightarrow> (\<exists>c' evs'. run emptyCache ops = Some (c', evs')))"
proof (intro conjI impI)
  assume "run emptyCache ops = Some (c, evs)"
  then have "cacheInv c" using cacheInv_empty run_cacheInv by blast
  then have al: "aligned c" by (simp add: cacheInv_def)
  then show "length (sheet c) = length (keys c)" by (simp add: aligned_iff)
  show "\<forall>i < length (keys c). \<exists>item.
          map_of (children c) (keys c ! i) = Some item \<and> nodeId item = keys c ! i \<and>
          sheet c ! i = getStyles item"
    using al by (simp add: aligned_iff)
next
  assume "\<forall>x \<in> set ops. nodeInv (opNode x)"
  then show "\<exists>c' evs'. run emptyCache ops = Some (c', evs')"
    using run_success [OF deepInv_empty, of ops] by blast
qed

definition redStyle :: node where
  "redStyle = Style ''color:red'' ''s1'' (Cache [''.a''] 1 [''k1''] [(''k1'', Selector ''.a'' ''k1'')] [(''k1'', 1)])"

definition redStyleB :: node where
  "redStyleB = Style ''color:red'' ''s1'' (Cache [''.b''] 1 [''k2''] [(''k2'', Selector ''.b'' ''k2'')] [(''k2'', 1)])"

lemma redStyle_nodeInv: "nodeInv redStyle" "nodeInv redStyleB"
  by (simp_all add: redStyle_def redStyleB_def cacheInv_def counted_def aligned_def)

lemma redStyle_run:
  "run emptyCache [Add redStyle, Add redStyleB, Remove redStyle] =
     Some (Cache [''.b{color:red}''] 3 [''s1'']
             [(''s1'', Style ''color:red'' ''s1''
                 (Cache [''.b''] 3 [''k2''] [(''k2'', Selector ''.b'' ''k2'')] [(''k2'', 1)]))]
             [(''s1'', 1)],
           [AddEvent (Style ''color:red'' ''s1''
                        (Cache [''.a''] 1 [''k1''] [(''k1'', Selector ''.a'' ''k1'')] [(''k1'', 1)])) 0,
            ChangeEvent (Style ''color:red'' ''s1''
                        (Cache [''.a'', ''.b''] 2 [''k1'', ''k2'']
                           [(''k1'', Selector ''.a'' ''k1''), (''k2'', Selector ''.b'' ''k2'')]
                           [(''k1'', 1), (''k2'', 1)])) 0 0,
            ChangeEvent (Style ''color:red'' ''s1''
                        (Cache [''.b''] 3 [''k2''] [(''k2'', Selector ''.b'' ''k2'')] [(''k2'', 1)])) 0 0])"
  by (simp add: redStyle_def redStyleB_def eval_simps)

theorem sheet_aligned_witness:
  "list_all (\<lambda>x. nodeInv (opNode x)) [Add redStyle, Add redStyleB, Remove redStyle]
   \<and> (\<exists>c evs. run emptyCache [Add redStyle, Add redStyleB, Remove redStyle] = Some (c, evs)
        \<and> length (sheet c) = length (keys c)
        \<and> (\<exists>item. map_of (children c) (keys c ! 0) = Some item \<and> nodeId item = keys c ! 0
              \<and> sheet c ! 0 = getStyles item)
        \<and> sheet c = [''.b{color:red}''] \<and> keys c = [''s1''])"
proof -
  let ?c = "Cache [''.b{color:red}''] 3 [''s1'']
             [(''s1'', Style ''color:red'' ''s1''
                 (Cache [''.b''] 3 [''k2''] [(''k2'', Selector ''.b'' ''k2'')] [(''k2'', 1)]))]
             [(''s1'', 1)]"
  have n: "\<forall>x \<in> set [Add redStyle, Add redStyleB, Remove redStyle]. nodeInv (opNode x)"
    using redStyle_nodeInv by simp
  obtain evs where r: "run emptyCache [Add redStyle, Add redStyleB, Remove redStyle] = Some (?c, evs)"
    using redStyle_run by blast
  have "length (sheet ?c) = length (keys ?c) \<and>
      (\<forall>i < length (keys ?c). \<exists>item.
          map_of (children ?c) (keys ?c ! i) = Some item \<and> nodeId item = keys ?c ! i \<and>
          sheet ?c ! i = getStyles item)"
    using sheet_aligned [of "[Add redStyle, Add redStyleB, Remove redStyle]" ?c evs] r by blast
  then show ?thesis using n r by simp
qed

section \<open>Insertion order\<close>

lemma remove1_indexOf:
  "k \<in> set xs \<Longrightarrow>
   take (nat (indexOf xs k)) xs @ drop (Suc (nat (indexOf xs k))) xs = remove1 k xs"
proof (induction xs)
  case Nil
  then show ?case by simp
next
  case (Cons x xs)
  show ?case
  proof (cases "x = k")
    case True
    then show ?thesis by simp
  next
    case False
    then have k: "k \<in> set xs" using Cons.prems by simp
    have "0 \<le> indexOf xs k" using indexOf_member [OF k] by simp
    then have "nat (indexOf (x # xs) k) = Suc (nat (indexOf xs k))"
      using False by (simp add: Let_def nat_add_distrib)
    then show ?thesis using False Cons.IH [OF k] by simp
  qed
qed

text \<open>
  Claim C9. In every cache the insertion order of the ids is preserved while they are
  present: \<open>add\<close> leaves the key list as it is or appends the new id, \<open>remove\<close> leaves it
  as it is or deletes the one id. Adding a node whose id is stored keeps the key list and
  replaces the text of the entry in place, at the index of the id, touching no other
  slot; the notification it may emit is one change notification whose old and new index
  are that index. Every change notification of \<open>add\<close> and \<open>remove\<close> has equal indices.
\<close>

theorem insertion_order:
  assumes "run emptyCache ops = Some (c, evs0)"
  shows "(nodeId s \<in> set (keys c) \<and> add c s = Some (c', evs) \<longrightarrow>
            keys c' = keys c
            \<and> 0 \<le> indexOf (keys c) (nodeId s)
            \<and> keys c ! nat (indexOf (keys c) (nodeId s)) = nodeId s
            \<and> (\<exists>text. sheet c' = (sheet c)[nat (indexOf (keys c) (nodeId s)) := text])
            \<and> (evs = [] \<or> (\<exists>item. evs = [ChangeEvent item (indexOf (keys c) (nodeId s))
                                                (indexOf (keys c) (nodeId s))])))
         \<and> (add c s = Some (c', evs) \<longrightarrow> keys c' = keys c \<or> keys c' = keys c @ [nodeId s])
         \<and> (remove c s = Some (c', evs) \<longrightarrow>
              keys c' = keys c \<or> keys c' = remove1 (nodeId s) (keys c))
         \<and> (add c s = Some (c', evs) \<or> remove c s = Some (c', evs) \<longrightarrow>
              (\<forall>item i j. ChangeEvent item i j \<in> set evs \<longrightarrow> i = j))"
proof -
  have inv: "cacheInv c" using assms cacheInv_empty run_cacheInv by blast
  have ex: "keys c' = keys c
            \<and> 0 \<le> indexOf (keys c) (nodeId s)
            \<and> keys c ! nat (indexOf (keys c) (nodeId s)) = nodeId s
            \<and> (\<exists>text. sheet c' = (sheet c)[nat (indexOf (keys c) (nodeId s)) := text])
            \<and> (evs = [] \<or> (\<exists>item. evs = [ChangeEvent item (indexOf (keys c) (nodeId s))
                                                (indexOf (keys c) (nodeId s))]))"
    if k: "nodeId s \<in> set (keys c)" and r: "add c s = Some (c', evs)"
  proof -
    obtain item1 ci where
      c': "c' = Cache ((sheet c)[nat (indexOf (keys c) (nodeId s)) := getStyles item1]) ci (keys c)
                  (AList.update (nodeId s) item1 (children c))
                  (AList.update (nodeId s) (countOf c (nodeId s) + 1) (counters c))"
      and e: "evs = [] \<or> evs = [ChangeEvent item1 (indexOf (keys c) (nodeId s))
                                  (indexOf (keys c) (nodeId s))]"
      using add_existing [OF inv k r] by blast
    have "sheet c' = (sheet c)[nat (indexOf (keys c) (nodeId s)) := getStyles item1]"
      using c' by simp
    then have "\<exists>text. sheet c' = (sheet c)[nat (indexOf (keys c) (nodeId s)) := text]"
      by blast
    moreover have "evs = [] \<or> (\<exists>item. evs = [ChangeEvent item (indexOf (keys c) (nodeId s))
                                                (indexOf (keys c) (nodeId s))])"
      using e by blast
    ultimately show ?thesis using c' indexOf_member [OF k] by simp
  qed
  have nw: "keys c' = keys c @ [nodeId s] \<and> (\<exists>item i. evs = [AddEvent item i])"
    if k: "nodeId s \<notin> set (keys c)" and r: "add c s = Some (c', evs)"
    using add_new [OF inv k r] by auto
  have a: "keys c' = keys c \<or> keys c' = keys c @ [nodeId s]" if r: "add c s = Some (c', evs)"
    using ex nw r by blast
  have ae: "\<forall>item i j. ChangeEvent item i j \<in> set evs \<longrightarrow> i = j" if r: "add c s = Some (c', evs)"
  proof (cases "nodeId s \<in> set (keys c)")
    case True
    then show ?thesis using ex [OF True r] by auto
  next
    case False
    then show ?thesis using nw [OF False r] by auto
  qed
  have rm: "(keys c' = keys c \<or> keys c' = remove1 (nodeId s) (keys c))
            \<and> (\<forall>item i j. ChangeEvent item i j \<in> set evs \<longrightarrow> i = j)"
    if r: "remove c s = Some (c', evs)"
  proof -
    consider "countOf c (nodeId s) = 0" | "countOf c (nodeId s) = 1" | "1 < countOf c (nodeId s)"
      by linarith
    then show ?thesis
    proof cases
      case 1
      then show ?thesis using r by (simp add: remove_absent)
    next
      case 2
      then have k: "nodeId s \<in> set (keys c)" using inv by (simp add: cacheInv_keys)
      show ?thesis
        using remove_last [OF inv 2] r remove1_indexOf [OF k] by auto
    next
      case 3
      show ?thesis using remove_shared [OF inv 3 r] by auto
    qed
  qed
  from ex a ae rm show ?thesis by blast
qed

theorem insertion_order_witness:
  "run emptyCache [Add redStyle] =
     Some (Cache [''.a{color:red}''] 1 [''s1'']
             [(''s1'', Style ''color:red'' ''s1''
                 (Cache [''.a''] 1 [''k1''] [(''k1'', Selector ''.a'' ''k1'')] [(''k1'', 1)]))]
             [(''s1'', 1)],
           [AddEvent (Style ''color:red'' ''s1''
                        (Cache [''.a''] 1 [''k1''] [(''k1'', Selector ''.a'' ''k1'')] [(''k1'', 1)])) 0])
   \<and> nodeId redStyleB \<in> set [''s1'']
   \<and> (\<exists>c' item. add (Cache [''.a{color:red}''] 1 [''s1'']
             [(''s1'', Style ''color:red'' ''s1''
                 (Cache [''.a''] 1 [''k1''] [(''k1'', Selector ''.a'' ''k1'')] [(''k1'', 1)]))]
             [(''s1'', 1)]) redStyleB = Some (c', [ChangeEvent item 0 0])
         \<and> keys c' = [''s1''] \<and> sheet c' = [''.a,.b{color:red}''])"
proof -
  let ?c = "Cache [''.a{color:red}''] 1 [''s1'']
             [(''s1'', Style ''color:red'' ''s1''
                 (Cache [''.a''] 1 [''k1''] [(''k1'', Selector ''.a'' ''k1'')] [(''k1'', 1)]))]
             [(''s1'', 1)]"
  let ?e = "[AddEvent (Style ''color:red'' ''s1''
                        (Cache [''.a''] 1 [''k1''] [(''k1'', Selector ''.a'' ''k1'')] [(''k1'', 1)])) 0]"
  have r: "run emptyCache [Add redStyle] = Some (?c, ?e)"
    by (simp add: redStyle_def eval_simps)
  have k: "nodeId redStyleB \<in> set (keys ?c)" by (simp add: redStyleB_def)
  obtain c' item where a: "add ?c redStyleB = Some (c', [ChangeEvent item 0 0])"
    and s: "sheet c' = [''.a,.b{color:red}'']"
    by (simp add: redStyleB_def eval_simps)
  have "keys c' = keys ?c"
    using insertion_order [OF r, of redStyleB c' "[ChangeEvent item 0 0]"] k a by blast
  then show ?thesis using r k a s by simp
qed

section \<open>Reference counts\<close>

text \<open>
  \<open>holds c0 k n c\<close>: the cache \<open>c\<close> is the cache \<open>c0\<close> with one more entry, of the id \<open>k\<close>
  and with reference count \<open>n\<close>, in the last slot.
\<close>

definition holds :: "node cache \<Rightarrow> string \<Rightarrow> nat \<Rightarrow> node cache \<Rightarrow> bool" where
  "holds c0 k n c =
     (cacheInv c \<and> keys c = keys c0 @ [k] \<and> (\<exists>text. sheet c = sheet c0 @ [text]) \<and>
      countOf c k = n \<and> AList.delete k (children c) = children c0 \<and>
      AList.delete k (counters c) = counters c0)"

fun isRemoveEvent :: "event \<Rightarrow> bool" where
  "isRemoveEvent (RemoveEvent item i) = True"
| "isRemoveEvent (AddEvent item i) = False"
| "isRemoveEvent (ChangeEvent item i j) = False"

lemma indexOf_append_last: "k \<notin> set xs \<Longrightarrow> indexOf (xs @ [k]) k = int (length xs)"
  by (induction xs) (auto simp: Let_def)

lemma cacheInv_fresh_dom:
  assumes "cacheInv c" and "k \<notin> set (keys c)"
  shows "k \<notin> fst ` set (children c)" and "k \<notin> fst ` set (counters c)"
  using assms by (auto simp: cacheInv_def counted_def)

lemma holds_first:
  assumes inv: "cacheInv c0" and k: "k \<notin> set (keys c0)" and s: "nodeId s = k"
    and r: "add c0 s = Some (c, evs)"
  shows "holds c0 k 1 c" and "\<forall>e \<in> set evs. \<not> isRemoveEvent e"
proof -
  obtain item where
    c: "c = Cache (sheet c0 @ [getStyles item]) (changeId c0 + 1) (keys c0 @ [k])
              (AList.update k item (children c0)) (AList.update k 1 (counters c0))"
    and e: "evs = [AddEvent item (int (length (keys c0)))]"
    using add_new [OF inv _ r] k s by auto
  have "cacheInv c" using inv r by (rule add_cacheInv)
  then show "holds c0 k 1 c"
    using c cacheInv_fresh_dom [OF inv k]
    by (simp add: holds_def delete_update_same update_conv')
  show "\<forall>e \<in> set evs. \<not> isRemoveEvent e" using e by simp
qed

lemma holds_add:
  assumes inv: "cacheInv c0" and k: "k \<notin> set (keys c0)" and h: "holds c0 k n c"
    and s: "nodeId s = k" and r: "add c s = Some (c', evs)"
  shows "holds c0 k (n + 1) c'" and "\<forall>e \<in> set evs. \<not> isRemoveEvent e"
proof -
  have ic: "cacheInv c" and ks: "keys c = keys c0 @ [k]" and cnt: "countOf c k = n"
    and ch: "AList.delete k (children c) = children c0"
    and cs: "AList.delete k (counters c) = counters c0"
    using h by (simp_all add: holds_def)
  obtain t where sh: "sheet c = sheet c0 @ [t]" using h by (auto simp: holds_def)
  have kin: "nodeId s \<in> set (keys c)" using ks s by simp
  have len: "length (sheet c0) = length (keys c0)"
    using inv by (simp add: cacheInv_def aligned_iff)
  have idx: "nat (indexOf (keys c) (nodeId s)) = length (sheet c0)"
    using indexOf_append_last [OF k] ks s len by simp
  obtain item1 ci where
    c': "c' = Cache ((sheet c)[nat (indexOf (keys c) (nodeId s)) := getStyles item1]) ci (keys c)
                  (AList.update (nodeId s) item1 (children c))
                  (AList.update (nodeId s) (countOf c (nodeId s) + 1) (counters c))"
    and e: "evs = [] \<or> evs = [ChangeEvent item1 (indexOf (keys c) (nodeId s))
                                  (indexOf (keys c) (nodeId s))]"
    using add_existing [OF ic kin r] by blast
  have "cacheInv c'" using ic r by (rule add_cacheInv)
  then show "holds c0 k (n + 1) c'"
    using c' ks sh cnt ch cs s idx
    by (simp add: holds_def delete_update_same update_conv')
  show "\<forall>e \<in> set evs. \<not> isRemoveEvent e" using e by auto
qed

lemma holds_remove:
  assumes inv: "cacheInv c0" and k: "k \<notin> set (keys c0)" and h: "holds c0 k n c"
    and n: "1 < n" and s: "nodeId s = k" and r: "remove c s = Some (c', evs)"
  shows "holds c0 k (n - 1) c'" and "\<forall>e \<in> set evs. \<not> isRemoveEvent e"
proof -
  have ic: "cacheInv c" and ks: "keys c = keys c0 @ [k]" and cnt: "countOf c k = n"
    and ch: "AList.delete k (children c) = children c0"
    and cs: "AList.delete k (counters c) = counters c0"
    using h by (simp_all add: holds_def)
  obtain t where sh: "sheet c = sheet c0 @ [t]" using h by (auto simp: holds_def)
  have len: "length (sheet c0) = length (keys c0)"
    using inv by (simp add: cacheInv_def aligned_iff)
  have idx: "nat (indexOf (keys c) (nodeId s)) = length (sheet c0)"
    using indexOf_append_last [OF k] ks s len by simp
  have c1: "1 < countOf c (nodeId s)" using cnt n s by simp
  obtain item1 ci where
    c': "c' = Cache ((sheet c)[nat (indexOf (keys c) (nodeId s)) := getStyles item1]) ci (keys c)
                  (AList.update (nodeId s) item1 (children c))
                  (AList.update (nodeId s) (countOf c (nodeId s) - 1) (counters c))"
    and e: "evs = [] \<or> evs = [ChangeEvent item1 (indexOf (keys c) (nodeId s))
                                  (indexOf (keys c) (nodeId s))]"
    using remove_shared [OF ic c1 r] by blast
  have "cacheInv c'" using ic r by (rule remove_cacheInv)
  then show "holds c0 k (n - 1) c'"
    using c' ks sh cnt ch cs s idx
    by (simp add: holds_def delete_update_same update_conv')
  show "\<forall>e \<in> set evs. \<not> isRemoveEvent e" using e by auto
qed

lemma holds_remove_last:
  assumes inv: "cacheInv c0" and k: "k \<notin> set (keys c0)" and h: "holds c0 k 1 c"
    and s: "nodeId s = k"
  shows "\<exists>item. remove c s =
           Some (Cache (sheet c0) (changeId c + 1) (keys c0) (children c0) (counters c0),
                 [RemoveEvent item (int (length (keys c0)))])"
proof -
  have ic: "cacheInv c" and ks: "keys c = keys c0 @ [k]" and cnt: "countOf c k = 1"
    and ch: "AList.delete k (children c) = children c0"
    and cs: "AList.delete k (counters c) = counters c0"
    using h by (simp_all add: holds_def)
  obtain t where sh: "sheet c = sheet c0 @ [t]" using h by (auto simp: holds_def)
  have len: "length (sheet c0) = length (keys c0)"
    using inv by (simp add: cacheInv_def aligned_iff)
  have io: "indexOf (keys c) (nodeId s) = int (length (keys c0))"
    using indexOf_append_last [OF k] ks s by simp
  have c1: "countOf c (nodeId s) = 1" using cnt s by simp
  show ?thesis
    using remove_last [OF ic c1] io ks sh ch cs s len by auto
qed

lemma holds_adds:
  assumes inv: "cacheInv c0" and k: "k \<notin> set (keys c0)"
  shows "holds c0 k n c \<Longrightarrow> \<forall>a \<in> set as. nodeId a = k \<Longrightarrow>
         run c (map Add as) = Some (c', evs) \<Longrightarrow>
         holds c0 k (n + length as) c' \<and> (\<forall>e \<in> set evs. \<not> isRemoveEvent e)"
proof (induction as arbitrary: n c evs)
  case Nil
  then show ?case by simp
next
  case (Cons a as)
  from Cons.prems(3) obtain c1 e1 e2 where a: "add c a = Some (c1, e1)"
    and r: "run c1 (map Add as) = Some (c', e2)" and e: "evs = e1 @ e2"
    by (auto split: option.splits)
  have ida: "nodeId a = k" using Cons.prems(2) by simp
  have h1: "holds c0 k (n + 1) c1" and n1: "\<forall>e \<in> set e1. \<not> isRemoveEvent e"
    using holds_add [OF inv k Cons.prems(1) ida a] by simp_all
  have "holds c0 k (n + 1 + length as) c' \<and> (\<forall>e \<in> set e2. \<not> isRemoveEvent e)"
    using Cons.IH [OF h1 _ r] Cons.prems(2) by simp
  then show ?case using n1 e by auto
qed

lemma holds_removes:
  assumes inv: "cacheInv c0" and k: "k \<notin> set (keys c0)"
  shows "holds c0 k n c \<Longrightarrow> \<forall>a \<in> set rs. nodeId a = k \<Longrightarrow> length rs < n \<Longrightarrow>
         run c (map Remove rs) = Some (c', evs) \<Longrightarrow>
         holds c0 k (n - length rs) c' \<and> (\<forall>e \<in> set evs. \<not> isRemoveEvent e)"
proof (induction rs arbitrary: n c evs)
  case Nil
  then show ?case by simp
next
  case (Cons a rs)
  from Cons.prems(4) obtain c1 e1 e2 where a: "remove c a = Some (c1, e1)"
    and r: "run c1 (map Remove rs) = Some (c', e2)" and e: "evs = e1 @ e2"
    by (auto split: option.splits)
  have ida: "nodeId a = k" using Cons.prems(2) by simp
  have n: "1 < n" using Cons.prems(3) by simp
  have h1: "holds c0 k (n - 1) c1" and n1: "\<forall>e \<in> set e1. \<not> isRemoveEvent e"
    using holds_remove [OF inv k Cons.prems(1) n ida a] by simp_all
  have "holds c0 k (n - 1 - length rs) c' \<and> (\<forall>e \<in> set e2. \<not> isRemoveEvent e)"
    using Cons.IH [OF h1 _ _ r] Cons.prems(2,3) by simp
  then show ?case using n1 e by auto
qed

text \<open>
  Claim C3. Removing an id that the cache does not hold (never added, or removed as often
  as it was added) is a silent no-op: the cache is returned as it is, with no
  notification. For an id that the cache does not hold, after N >= 1 calls of \<open>add\<close> with
  nodes of that id and N - 1 calls of \<open>remove\<close>, the entry is still present, in the last
  slot of the key list and of the sheet, with reference count 1, and no remove
  notification was emitted; the N-th \<open>remove\<close> deletes the entry and its slot, which
  gives back the key list, the sheet, the children and the counters from before the
  first \<open>add\<close>, and emits exactly one notification, a remove notification; one more
  \<open>remove\<close> is a no-op. On well-formed nodes the calls return.
\<close>

theorem refcount_removal:
  assumes "run emptyCache ops = Some (c, evs0)"
  shows "(nodeId s \<notin> set (keys c) \<longrightarrow> remove c s = Some (c, []))
   \<and> (as \<noteq> [] \<and> length rs + 1 = length as \<and> (\<forall>a \<in> set (as @ rs @ [r, r']). nodeId a = k)
        \<and> k \<notin> set (keys c)
        \<and> run c (map Add as) = Some (c1, e1) \<and> run c1 (map Remove rs) = Some (c2, e2)
       \<longrightarrow> k \<in> set (keys c2) \<and> keys c2 = keys c @ [k]
           \<and> length (sheet c2) = length (keys c2) \<and> countOf c2 k = 1
           \<and> (\<forall>e \<in> set (e1 @ e2). \<not> isRemoveEvent e)
           \<and> (\<exists>item c3. remove c2 r = Some (c3, [RemoveEvent item (int (length (keys c)))])
                 \<and> c3 = Cache (sheet c) (changeId c2 + 1) (keys c) (children c) (counters c)
                 \<and> remove c3 r' = Some (c3, [])))
   \<and> ((\<forall>x \<in> set ops. nodeInv (opNode x)) \<and> (\<forall>a \<in> set (as @ rs). nodeInv a)
       \<longrightarrow> (\<exists>c1' e1' c2' e2'. run c (map Add as) = Some (c1', e1')
              \<and> run c1' (map Remove rs) = Some (c2', e2')))"
proof (intro conjI impI)
  have inv: "cacheInv c" using assms cacheInv_empty run_cacheInv by blast
  {
    assume "nodeId s \<notin> set (keys c)"
    then have "countOf c (nodeId s) = 0" using inv by (simp add: cacheInv_keys)
    then show "remove c s = Some (c, [])" by (rule remove_absent)
  }
  {
    assume h: "as \<noteq> [] \<and> length rs + 1 = length as \<and> (\<forall>a \<in> set (as @ rs @ [r, r']). nodeId a = k)
        \<and> k \<notin> set (keys c)
        \<and> run c (map Add as) = Some (c1, e1) \<and> run c1 (map Remove rs) = Some (c2, e2)"
    then obtain a as' where as: "as = a # as'" by (cases as) auto
    have k: "k \<notin> set (keys c)" using h by simp
    from h as obtain ca ea ea' where a: "add c a = Some (ca, ea)"
      and ra: "run ca (map Add as') = Some (c1, ea')" and e1: "e1 = ea @ ea'"
      by (auto split: option.splits)
    have ida: "nodeId a = k" using h as by simp
    have h1: "holds c k 1 ca" and n1: "\<forall>e \<in> set ea. \<not> isRemoveEvent e"
      using holds_first [OF inv k ida a] by simp_all
    have "holds c k (1 + length as') c1 \<and> (\<forall>e \<in> set ea'. \<not> isRemoveEvent e)"
      using holds_adds [OF inv k h1 _ ra] h as by simp
    then have h2: "holds c k (length as) c1" and n2: "\<forall>e \<in> set ea'. \<not> isRemoveEvent e"
      using as by simp_all
    have "holds c k (length as - length rs) c2 \<and> (\<forall>e \<in> set e2. \<not> isRemoveEvent e)"
      using holds_removes [OF inv k h2, of rs c2 e2] h by simp
    moreover have "length as - length rs = 1" using h by linarith
    ultimately have h3: "holds c k 1 c2" and n3: "\<forall>e \<in> set e2. \<not> isRemoveEvent e"
      by simp_all
    show "k \<in> set (keys c2)" "keys c2 = keys c @ [k]" "countOf c2 k = 1"
      using h3 by (simp_all add: holds_def)
    show "length (sheet c2) = length (keys c2)"
      using h3 by (auto simp: holds_def cacheInv_def aligned_iff)
    show "\<forall>e \<in> set (e1 @ e2). \<not> isRemoveEvent e"
      using n1 n2 n3 e1 by auto
    let ?c3 = "Cache (sheet c) (changeId c2 + 1) (keys c) (children c) (counters c)"
    have idr: "nodeId r = k" "nodeId r' = k" using h by simp_all
    obtain item where r: "remove c2 r = Some (?c3, [RemoveEvent item (int (length (keys c)))])"
      using holds_remove_last [OF inv k h3 idr(1)] by blast
    have "countOf c k = 0" using inv k by (simp add: cacheInv_keys)
    then have "countOf ?c3 (nodeId r') = 0" using idr by (simp add: countOf_def)
    then have "remove ?c3 r' = Some (?c3, [])" by (rule remove_absent)
    then show "\<exists>item c3. remove c2 r = Some (c3, [RemoveEvent item (int (length (keys c)))])
                 \<and> c3 = Cache (sheet c) (changeId c2 + 1) (keys c) (children c) (counters c)
                 \<and> remove c3 r' = Some (c3, [])"
      using r by blast
  }
  {
    assume n: "(\<forall>x \<in> set ops. nodeInv (opNode x)) \<and> (\<forall>a \<in> set (as @ rs). nodeInv a)"
    then have "deepInv c"
      using run_success [OF deepInv_empty, of ops] assms by auto
    then obtain c1' e1' where r1: "run c (map Add as) = Some (c1', e1')" and d1: "deepInv c1'"
      using run_success [of c "map Add as"] n by auto
    obtain c2' e2' where "run c1' (map Remove rs) = Some (c2', e2')"
      using run_success [OF d1, of "map Remove rs"] n by auto
    then show "\<exists>c1' e1' c2' e2'. run c (map Add as) = Some (c1', e1')
              \<and> run c1' (map Remove rs) = Some (c2', e2')"
      using r1 by blast
  }
qed

theorem refcount_removal_witness:
  "run (emptyCache :: node cache) [] = Some ((emptyCache :: node cache), [])
   \<and> [redStyle, redStyleB] \<noteq> [] \<and> length [redStyle] + 1 = length [redStyle, redStyleB]
   \<and> list_all (\<lambda>a. nodeId a = ''s1'') ([redStyle, redStyleB] @ [redStyle] @ [redStyleB, redStyle])
   \<and> ''s1'' \<notin> set (keys (emptyCache :: node cache))
   \<and> list_all nodeInv ([redStyle, redStyleB] @ [redStyle])
   \<and> (\<exists>c1 e1 c2 e2 item.
         run (emptyCache :: node cache) (map Add [redStyle, redStyleB]) = Some (c1, e1)
         \<and> run c1 (map Remove [redStyle]) = Some (c2, e2)
         \<and> keys c2 = [''s1''] \<and> countOf c2 ''s1'' = 1
         \<and> remove c2 redStyleB = Some (Cache [] (changeId c2 + 1) [] [] [], [RemoveEvent item 0])
         \<and> remove (Cache [] (changeId c2 + 1) [] [] []) redStyle
             = Some (Cache [] (changeId c2 + 1) [] [] [], []))"
proof -
  have r0: "run (emptyCache :: node cache) [] = Some ((emptyCache :: node cache), [])" by simp
  have ids: "\<forall>a \<in> set ([redStyle, redStyleB] @ [redStyle] @ [redStyleB, redStyle]). nodeId a = ''s1''"
    by (simp add: redStyle_def redStyleB_def)
  have k: "''s1'' \<notin> set (keys (emptyCache :: node cache))" by (simp add: emptyCache_def)
  have nv: "\<forall>a \<in> set ([redStyle, redStyleB] @ [redStyle]). nodeInv a"
    using redStyle_nodeInv by simp
  have n0: "\<forall>x \<in> set ([] :: op list). nodeInv (opNode x)" by simp
  obtain c1 e1 c2 e2 where r1: "run (emptyCache :: node cache) (map Add [redStyle, redStyleB]) = Some (c1, e1)"
    and r2: "run c1 (map Remove [redStyle]) = Some (c2, e2)"
    using refcount_removal [OF r0, of redStyle "[redStyle, redStyleB]" "[redStyle]" redStyleB redStyle
        "''s1''"] n0 nv
    by blast
  have ante: "[redStyle, redStyleB] \<noteq> [] \<and> length [redStyle] + 1 = length [redStyle, redStyleB]
        \<and> (\<forall>a \<in> set ([redStyle, redStyleB] @ [redStyle] @ [redStyleB, redStyle]). nodeId a = ''s1'')
        \<and> ''s1'' \<notin> set (keys (emptyCache :: node cache))
        \<and> run (emptyCache :: node cache) (map Add [redStyle, redStyleB]) = Some (c1, e1)
        \<and> run c1 (map Remove [redStyle]) = Some (c2, e2)"
    using ids k r1 r2 by simp
  have "''s1'' \<in> set (keys c2) \<and> keys c2 = keys (emptyCache :: node cache) @ [''s1'']
        \<and> length (sheet c2) = length (keys c2) \<and> countOf c2 ''s1'' = 1
        \<and> (\<forall>e \<in> set (e1 @ e2). \<not> isRemoveEvent e)
        \<and> (\<exists>item c3. remove c2 redStyleB = Some (c3, [RemoveEvent item (int (length (keys (emptyCache :: node cache))))])
             \<and> c3 = Cache (sheet (emptyCache :: node cache)) (changeId c2 + 1) (keys (emptyCache :: node cache))
                      (children (emptyCache :: node cache)) (counters (emptyCache :: node cache))
             \<and> remove c3 redStyle = Some (c3, []))"
    by (rule mp [OF conjunct1 [OF conjunct2 [OF refcount_removal [OF r0, of redStyle
        "[redStyle, redStyleB]" "[redStyle]" redStyleB redStyle "''s1''" c1 e1 c2 e2]]] ante])
  then show ?thesis
    using r0 ids k nv r1 r2 by (auto simp: emptyCache_def)
qed


section \<open>Registering a flat style\<close>

text \<open>The cache of a \<open>Style\<close> node that holds one selector, with its reference count.\<close>

definition selectorCache :: "string \<Rightarrow> string \<Rightarrow> nat \<Rightarrow> node cache" where
  "selectorCache k kid n = Cache [k] 1 [kid] [(kid, Selector k kid)] [(kid, n)]"

lemma selectorCache_sel [simp]:
  "sheet (selectorCache k kid n) = [k]"
  "changeId (selectorCache k kid n) = 1"
  "keys (selectorCache k kid n) = [kid]"
  "children (selectorCache k kid n) = [(kid, Selector k kid)]"
  "counters (selectorCache k kid n) = [(kid, n)]"
  by (simp_all add: selectorCache_def)

lemmas cache_simps =
  add.simps addItem.simps merge.simps emptyCache_def countOf_def values_of_def Let_def

lemma add_selector:
  "add emptyCache (Selector k kid) = Some (selectorCache k kid 1, [AddEvent (Selector k kid) 0])"
  by (simp add: cache_simps selectorCache_def)

lemma clone_style_selector:
  "clone (Style style sid (selectorCache k kid n)) = Some (Style style sid (selectorCache k kid 1))"
  by (simp add: cache_simps selectorCache_def)


lemma nodeInv_style_selector: "nodeInv (Style style sid (selectorCache k kid (Suc n)))"
  by (simp add: selectorCache_def cacheInv_def counted_def aligned_def)

lemma getStyles_style_selector:
  "getStyles (Style style sid (selectorCache k kid n)) = k @ ''{'' @ style @ ''}''"
  by (simp add: selectorCache_def)

lemma add_style_first:
  assumes inv: "cacheInv c" and k: "sid \<notin> set (keys c)"
  shows "add c (Style style sid (selectorCache k kid 1)) =
           Some (Cache (sheet c @ [k @ ''{'' @ style @ ''}'']) (changeId c + 1) (keys c @ [sid])
                   (AList.update sid (Style style sid (selectorCache k kid 1)) (children c))
                   (AList.update sid 1 (counters c)),
                 [AddEvent (Style style sid (selectorCache k kid 1)) (int (length (keys c)))])"
proof -
  have st: "map_of (children c) (nodeId (Style style sid (selectorCache k kid 1))) = None"
    using cacheInv_not_stored [OF inv k] by simp
  have cnt: "countOf c (nodeId (Style style sid (selectorCache k kid 1))) = 0"
    using inv k by (simp add: cacheInv_keys)
  show ?thesis
    unfolding add_not_stored [OF st] clone_style_selector
    using addItem_fresh [OF cnt, of "Style style sid (selectorCache k kid 1)" False]
    by (simp add: getStyles_style_selector)
qed


lemma digit36_inj:
  assumes "a < 36" and "b < 36" and "digit36 a = digit36 b"
  shows "a = b"
proof -
  have d: "distinct ''0123456789abcdefghijklmnopqrstuvwxyz''" by simp
  have l: "length ''0123456789abcdefghijklmnopqrstuvwxyz'' = 36" by simp
  show ?thesis
    using assms nth_eq_iff_index_eq [OF d, of a b] unfolding digit36_def l by simp
qed

lemma toString36_nonempty: "toString36 n \<noteq> []"
  by (subst toString36.simps) simp

lemma toString36_inj: "toString36 n = toString36 m \<Longrightarrow> n = m"
proof (induction n arbitrary: m rule: toString36.induct)
  case (1 n)
  show ?case
  proof (cases "n < 36")
    case True
    show ?thesis
    proof (cases "m < 36")
      case m: True
      have "[digit36 n] = [digit36 m]"
        using "1.prems" True m by (simp add: toString36.simps)
      then show ?thesis using True m digit36_inj by simp
    next
      case m: False
      have "[digit36 n] = toString36 (m div 36) @ [digit36 (m mod 36)]"
        using "1.prems" True m by (simp add: toString36.simps [of n] toString36.simps [of m])
      then show ?thesis using toString36_nonempty [of "m div 36"] by (cases "toString36 (m div 36)") auto
    qed
  next
    case False
    show ?thesis
    proof (cases "m < 36")
      case m: True
      have "toString36 (n div 36) @ [digit36 (n mod 36)] = [digit36 m]"
        using "1.prems" False m by (simp add: toString36.simps [of n] toString36.simps [of m])
      then show ?thesis using toString36_nonempty [of "n div 36"] by (cases "toString36 (n div 36)") auto
    next
      case m: False
      have "toString36 (n div 36) @ [digit36 (n mod 36)] = toString36 (m div 36) @ [digit36 (m mod 36)]"
        using "1.prems" False m by (simp add: toString36.simps [of n] toString36.simps [of m])
      then have a: "toString36 (n div 36) = toString36 (m div 36)"
        and b: "digit36 (n mod 36) = digit36 (m mod 36)" by simp_all
      have "n div 36 = m div 36" using "1.IH" [OF False a] .
      moreover have "n mod 36 = m mod 36" using digit36_inj [OF _ _ b] by simp
      ultimately show ?thesis by (metis div_mult_mod_eq)
    qed
  qed
qed

text \<open>
  A class selector is substituted as it is: the hash holds no dollar sign, and \<open>escape\<close>
  puts a backslash in front of the dollar sign and of every character that would make a
  pattern behind it.
\<close>

lemma getSubstitution_Cons:
  assumes "getSubstitution matched front behind rest = rest"
    and "c \<noteq> CHR ''$'' \<or> rest = [] \<or> hd rest \<notin> {CHR ''$'', CHR ''&'', CHR 0x60, CHR 0x27}"
  shows "getSubstitution matched front behind (c # rest) = c # rest"
  using assms by (cases rest) auto

lemma escape_Cons:
  "escape (c # s) = (if c \<in> set escapeChars then [CHR 0x5C, c] else [c]) @ escape s"
  by (simp add: escape_def)

lemma escape_hd:
  "escape s = [] \<or> hd (escape s) \<notin> {CHR ''$'', CHR ''&'', CHR 0x60, CHR 0x27}"
  by (cases s) (simp_all add: escape_def escapeChars_def)

lemma getSubstitution_escape:
  "getSubstitution matched front behind (escape s) = escape s"
proof (induction s)
  case Nil
  then show ?case by (simp add: escape_def)
next
  case (Cons c s)
  have a: "getSubstitution matched front behind (c # escape s) = c # escape s"
    using Cons escape_hd [of s] by (intro getSubstitution_Cons) auto
  show ?case
    using a Cons by (simp add: escape_Cons getSubstitution_Cons)
qed

lemma digit36_plain: "d < 36 \<Longrightarrow> digit36 d \<noteq> CHR ''$''"
proof -
  assume "d < 36"
  then have "digit36 d \<in> set ''0123456789abcdefghijklmnopqrstuvwxyz''"
    unfolding digit36_def by (intro nth_mem) simp
  then show ?thesis by auto
qed

lemma toString36_plain: "CHR ''$'' \<notin> set (toString36 n)"
proof (induction n rule: toString36.induct)
  case (1 n)
  show ?case
  proof (cases "n < 36")
    case True
    then show ?thesis using digit36_plain [of n] by (simp add: toString36.simps [of n])
  next
    case False
    then show ?thesis
      using 1 digit36_plain [of "n mod 36"] by (simp add: toString36.simps [of n])
  qed
qed

lemma interpolate_amp:
  "interpolate ''&'' (''.'' @ (if production then key production pid T
                              else escape (key production pid T))) =
   ''.'' @ (if production then key production pid T else escape (key production pid T))"
proof (cases production)
  case True
  have "CHR ''$'' \<notin> set (''.'' @ key True pid T)"
    by (simp add: key_def stringHash_def toString36_plain)
  then show ?thesis using True by (simp add: interpolate_plain)
next
  case False
  have "getSubstitution ''&'' [] [] (CHR ''.'' # escape (key False pid T)) =
          CHR ''.'' # escape (key False pid T)"
    by (intro getSubstitution_Cons getSubstitution_escape) simp
  then show ?thesis using False by (simp add: interpolate_def)
qed

lemma stylize_flat:
  assumes "concat (map nestedOf T) = []"
  shows "stylize ''&'' T [] [] None =
           (p_style (parseStyles T True), [],
            if p_style (parseStyles T True) \<noteq> []
            then [\<lparr> ss_selector = ''&'', ss_style = p_style (parseStyles T True),
                    ss_isUnique = p_isUnique (parseStyles T True) \<rparr>]
            else [])"
proof -
  have n: "p_nested (parseStyles T True) = []"
    using assms by (simp add: parseStyles_def parseStylesLoop_eq)
  show ?thesis
    by (subst stylize_unfold) (simp add: n isAtRule_def truthyParent_def Let_def)
qed

text \<open>The class selector, the rule text and the node ids of a flat style.\<close>

definition flatClass :: "bool \<Rightarrow> Styles \<Rightarrow> string" where
  "flatClass production T =
     ''.'' @ (if production then key production (p_style (parseStyles T True)) T
              else escape (key production (p_style (parseStyles T True)) T))"

definition flatRule :: "bool \<Rightarrow> Styles \<Rightarrow> string" where
  "flatRule production T = flatClass production T @ ''{'' @ p_style (parseStyles T True) @ ''}''"

definition flatStyleId :: "Styles \<Rightarrow> string" where
  "flatStyleId T =
     ''s'' @ NUL @ p_style (parseStyles T True) @ NUL @ p_style (parseStyles T True)"

definition uniqueStyleId :: "nat \<Rightarrow> string" where
  "uniqueStyleId n = ''u'' @ NUL @ toString36 n"

definition flatStyle :: "bool \<Rightarrow> Styles \<Rightarrow> string \<Rightarrow> nat \<Rightarrow> node" where
  "flatStyle production T ident n =
     Style (p_style (parseStyles T True)) ident
       (selectorCache (flatClass production T)
          (''k'' @ NUL @ p_style (parseStyles T True) @ NUL @ flatClass production T) n)"

lemma registerStyle_flat:
  assumes "concat (map nestedOf T) = []" and "p_style (parseStyles T True) \<noteq> []"
  shows "registerStyle production u fs T =
     (case add (fs_cache fs)
             (flatStyle production T
                (if p_isUnique (parseStyles T True) then uniqueStyleId (u + 1) else flatStyleId T) 1) of
        None \<Rightarrow> None
      | Some (c1, evs) \<Rightarrow>
          Some (key production (p_style (parseStyles T True)) T,
                if p_isUnique (parseStyles T True) then u + 1 else u,
                fs\<lparr> fs_cache := c1, fs_changes := fs_changes fs @ evs \<rparr>))"
  using assms
  by (simp add: registerStyle_def stylize_flat interpolate_amp [of True, simplified]
      interpolate_amp [of False, simplified] add_selector flatStyle_def
      flatClass_def flatStyleId_def uniqueStyleId_def Let_def split: option.splits)

lemma uniqueStyleId_inj: "uniqueStyleId m = uniqueStyleId n \<Longrightarrow> m = n"
  by (simp add: uniqueStyleId_def toString36_inj)

lemma uniqueStyleId_not_flat: "uniqueStyleId n \<noteq> flatStyleId T"
  by (simp add: uniqueStyleId_def flatStyleId_def)

lemma composeStyles_success:
  "deepInv c \<Longrightarrow>
   \<exists>u' c' evs. composeStyles u c pid stylesList className isStyle = Some (u', c', evs) \<and> deepInv c'"
proof (induction stylesList arbitrary: u c)
  case Nil
  then show ?case by simp
next
  case (Cons s stylesList)
  let ?k = "if isStyle then interpolate (ss_selector s) className else ss_selector s"
  let ?u1 = "if ss_isUnique s then u + 1 else u"
  let ?ident = "if ss_isUnique s then ''u'' @ NUL @ toString36 ?u1
                else ''s'' @ NUL @ pid @ NUL @ ss_style s"
  let ?kid = "''k'' @ NUL @ pid @ NUL @ ?k"
  have "nodeInv (Style (ss_style s) ?ident (selectorCache ?k ?kid 1))"
    using nodeInv_style_selector [of _ _ _ _ 0] by simp
  with Cons.prems obtain c1 e1
    where a: "add c (Style (ss_style s) ?ident (selectorCache ?k ?kid 1)) = Some (c1, e1)"
      and d: "deepInv c1"
    using add_success by blast
  obtain u2 c2 e2
    where r: "composeStyles ?u1 c1 pid stylesList className isStyle = Some (u2, c2, e2)"
      and d2: "deepInv c2"
    using Cons.IH [OF d] by blast
  show ?case
    using a r d2 by (simp add: add_selector Let_def)
qed

lemma composeStylize_success:
  "deepInv c \<Longrightarrow>
   \<exists>u' c' evs. composeStylize u c pid rulesList stylesList className isStyle = Some (u', c', evs)
      \<and> deepInv c'"
  and composeRules_success:
  "deepInv c \<Longrightarrow>
   \<exists>u' c' evs. composeRules u c pid rulesList className isStyle = Some (u', c', evs) \<and> deepInv c'"
proof (induction u c pid rulesList stylesList className isStyle
       and u c pid rulesList className isStyle rule: composeStylize_composeRules.induct)
  case (1 uniqueId c pid rulesList stylesList className isStyle)
  obtain u1 c1 e1
    where s: "composeStyles uniqueId c pid stylesList className isStyle = Some (u1, c1, e1)"
      and d1: "deepInv c1"
    using composeStyles_success [OF "1.prems"] by blast
  obtain u2 c2 e2
    where r: "composeRules u1 c1 pid rulesList className isStyle = Some (u2, c2, e2)"
      and d2: "deepInv c2"
    using "1.IH" [OF s refl refl d1] by blast
  show ?case using s r d2 by simp
next
  case (2 uniqueId c pid className isStyle)
  then show ?case by simp
next
  case (3 uniqueId c pid r rulesList className isStyle)
  let ?ident = "''r'' @ NUL @ pid @ NUL @ sr_selector r @ NUL @ sr_style r"
  obtain u1 ic e0
    where i: "composeStylize uniqueId emptyCache pid (sr_rules r) (sr_styles r) className isStyle
                = Some (u1, ic, e0)"
      and di: "deepInv ic"
    using "3.IH"(1) [OF refl deepInv_empty] by blast
  have "nodeInv (Rule (sr_selector r) (sr_style r) ?ident ic)"
    using di by (simp add: deepInv_def)
  with "3.prems" obtain c1 e1
    where a: "add c (Rule (sr_selector r) (sr_style r) ?ident ic) = Some (c1, e1)"
      and d1: "deepInv c1"
    using add_success by blast
  obtain u2 c2 e2
    where r: "composeRules u1 c1 pid rulesList className isStyle = Some (u2, c2, e2)"
      and d2: "deepInv c2"
    using "3.IH"(2) [OF refl i refl refl a refl d1] by blast
  show ?case using i a r d2 by (simp add: Let_def)
qed

lemma registerStyle_success:
  assumes "deepInv (fs_cache fs)"
  shows "\<exists>u' fs'. registerStyle production u fs T =
            Some (key production (fst (stylize ''&'' T [] [] None)) T, u', fs')
          \<and> deepInv (fs_cache fs')"
proof -
  obtain pid rulesList stylesList where s: "stylize ''&'' T [] [] None = (pid, rulesList, stylesList)"
    by (cases "stylize ''&'' T [] [] None")
  let ?ident = "key production pid T"
  let ?sel = "''.'' @ (if production then ?ident else escape ?ident)"
  obtain u' c' evs
    where c: "composeStylize u (fs_cache fs) pid rulesList stylesList ?sel True = Some (u', c', evs)"
      and d: "deepInv c'"
    using composeStylize_success [OF assms] by blast
  show ?thesis
    using s c d by (simp add: registerStyle_def Let_def)
qed


text \<open>The identifier that \<open>registerStyle\<close> returns for a style tree.\<close>

definition styleIdentifier :: "bool \<Rightarrow> Styles \<Rightarrow> string" where
  "styleIdentifier production T = key production (fst (stylize ''&'' T [] [] None)) T"

lemma styleIdentifier_flat:
  "concat (map nestedOf T) = [] \<Longrightarrow>
   styleIdentifier production T = key production (p_style (parseStyles T True)) T"
  by (simp add: styleIdentifier_def stylize_flat)

definition uniqueExample :: Styles where
  "uniqueExample = [(''$unique'', Scalar (VBoolean True)), (''color'', Scalar (VString ''red''))]"



lemma uniqueExample_parse:
  "concat (map nestedOf uniqueExample) = []"
  "p_style (parseStyles uniqueExample True) = ''color:red''"
  "p_isUnique (parseStyles uniqueExample True)"
  by (simp_all add: uniqueExample_def eval_simps)

section \<open>Adding what a cache already holds\<close>
















text \<open>Every \<open>add\<close> that returns counts one more reference of the node's id, and no other.\<close>

lemma addItem_counters:
  "addItem c s item stored = Some (c', e) \<Longrightarrow>
   counters c' = AList.update (nodeId s) (countOf c (nodeId s) + 1) (counters c)"
  by (auto simp: addItem.simps Let_def split: if_splits option.splits prod.splits)

lemma add_countOf:
  assumes "add c s = Some (c', e)"
  shows "countOf c' k = (if k = nodeId s then countOf c k + 1 else countOf c k)"
proof -
  obtain item stored where "addItem c s item stored = Some (c', e)"
    using assms by (auto simp: add.simps split: option.splits)
  then have "counters c' = AList.update (nodeId s) (countOf c (nodeId s) + 1) (counters c)"
    by (rule addItem_counters)
  then show ?thesis by (simp add: countOf_def update_conv')
qed






section \<open>The nodes of a flattened tree\<close>
























section \<open>Order of the declarations\<close>

text \<open>
  Two style trees with the same declarations in another authoring order. At every node the
  two have the same set of declarations, the pairs of a hyphenated name and a value that
  \<open>parseStyles\<close> collects, with pairwise distinct hyphenated names (or the same
  declarations in the same order), and the same \<open>$unique\<close> flag; their nested entries
  have the same names in the same order, and the two trees of every nested entry are
  related in the same way.
\<close>

function reordered :: "Styles \<Rightarrow> Styles \<Rightarrow> bool" where
  "reordered xs ys =
     ((concat (map propertyOf xs) = concat (map propertyOf ys)
       \<or> set (concat (map propertyOf xs)) = set (concat (map propertyOf ys))
         \<and> distinct (map fst (concat (map propertyOf xs)))
         \<and> distinct (map fst (concat (map propertyOf ys))))
      \<and> valueToBoolean (getProperty xs ''$unique'') = valueToBoolean (getProperty ys ''$unique'')
      \<and> map fst (concat (map nestedOf xs)) = map fst (concat (map nestedOf ys))
      \<and> (\<forall>p \<in> set (zip (concat (map nestedOf xs)) (concat (map nestedOf ys))).
            reordered (snd (fst p)) (snd (snd p))))"
  by pat_completeness auto
termination
proof (relation "measure (\<lambda>(xs, ys). size (Object xs))")
  show "wf (measure (\<lambda>(xs, ys). size (Object xs)))" by simp
next
  fix xs ys :: Styles and p
  assume "p \<in> set (zip (concat (map nestedOf xs)) (concat (map nestedOf ys)))"
  then have "(fst p, snd p) \<in> set (zip (concat (map nestedOf xs)) (concat (map nestedOf ys)))"
    by simp
  then have "fst p \<in> set (concat (map nestedOf xs))"
    by (rule set_zip_leftD)
  then have "size (Object (snd (fst p))) < size (Object xs)"
    using nestedOf_size [of "fst (fst p)" "snd (fst p)" xs] by simp
  then show "((snd (fst p), snd (snd p)), (xs, ys)) \<in> measure (\<lambda>(xs, ys). size (Object xs))"
    by simp
qed

declare reordered.simps [simp del]

text \<open>The nested entries of two related trees.\<close>

definition sameEntry :: "string \<times> Styles \<Rightarrow> string \<times> Styles \<Rightarrow> bool" where
  "sameEntry a b = (fst a = fst b \<and> reordered (snd a) (snd b))"

lemma reordered_nested:
  assumes "reordered xs ys"
  shows "list_all2 sameEntry (concat (map nestedOf xs)) (concat (map nestedOf ys))"
proof -
  let ?nx = "concat (map nestedOf xs)" and ?ny = "concat (map nestedOf ys)"
  have m: "map fst ?nx = map fst ?ny"
    and r: "\<forall>p \<in> set (zip ?nx ?ny). reordered (snd (fst p)) (snd (snd p))"
    using assms by (subst (asm) reordered.simps, simp)+
  have len: "length ?nx = length ?ny" using m by (metis length_map)
  have "\<forall>p \<in> set (zip ?nx ?ny). sameEntry (fst p) (snd p)"
  proof
    fix p
    assume z: "p \<in> set (zip ?nx ?ny)"
    then obtain i where i: "i < length ?nx" "?nx ! i = fst p" "?ny ! i = snd p"
      unfolding in_set_zip by blast
    have "map fst ?nx ! i = map fst ?ny ! i" using m by simp
    then have "fst (fst p) = fst (snd p)" using i len by simp
    then show "sameEntry (fst p) (snd p)"
      using r z by (simp add: sameEntry_def)
  qed
  then show ?thesis using len by (simp add: list_all2_iff case_prod_beta)
qed

lemma insertTuple_related:
  assumes "\<And>a b. R a b \<Longrightarrow> fst a = fst b"
  shows "R a b \<Longrightarrow> list_all2 R as bs \<Longrightarrow> list_all2 R (insertTuple a as) (insertTuple b bs)"
proof (induction as arbitrary: bs)
  case Nil
  then show ?case by simp
next
  case (Cons x as)
  then obtain y bs' where bs: "bs = y # bs'" and xy: "R x y" and rest: "list_all2 R as bs'"
    by (cases bs) auto
  have "fst a = fst b" "fst x = fst y" using assms Cons.prems(1) xy by auto
  then have c: "compareTuples a x = compareTuples b y" by (simp add: compareTuples_def)
  show ?case
    using Cons.IH [OF Cons.prems(1) rest] Cons.prems(1) xy rest c unfolding bs by simp
qed

lemma sortTuples_related:
  assumes "\<And>a b. R a b \<Longrightarrow> fst a = fst b" and "list_all2 R xs ys"
  shows "list_all2 R (sortTuples xs) (sortTuples ys)"
proof -
  have "list_all2 R acc acc' \<Longrightarrow> list_all2 R xs ys \<Longrightarrow>
        list_all2 R (foldl (\<lambda>sorted a. insertTuple a sorted) acc xs)
                    (foldl (\<lambda>sorted a. insertTuple a sorted) acc' ys)" for acc acc'
  proof (induction xs arbitrary: ys acc acc')
    case Nil
    then show ?case by simp
  next
    case (Cons x xs)
    then obtain y ys' where ys: "ys = y # ys'" and xy: "R x y" and rest: "list_all2 R xs ys'"
      by (cases ys) auto
    show ?case
      unfolding ys using Cons.IH [OF insertTuple_related [OF assms(1) xy Cons.prems(1)] rest]
      by simp
  qed
  then show ?thesis using assms(2) by (simp add: sortTuples_def)
qed

lemma fold_nestedStep_related:
  assumes "list_all2 (\<lambda>a b. \<forall>acc. nestedStep parent a acc = nestedStep parent b acc) nx ny"
  shows "fold (nestedStep parent) nx acc = fold (nestedStep parent) ny acc"
  using assms
proof (induction nx ny arbitrary: acc rule: list_all2_induct)
  case Nil
  then show ?case by simp
next
  case (Cons x xs y ys)
  have "nestedStep parent x acc = nestedStep parent y acc" using Cons.hyps(1) by blast
  then show ?case using Cons.IH by simp
qed

lemma reordered_properties:
  assumes "reordered xs ys"
  shows "sortTuples (concat (map propertyOf xs)) = sortTuples (concat (map propertyOf ys))"
proof -
  let ?px = "concat (map propertyOf xs)" and ?py = "concat (map propertyOf ys)"
  have "?px = ?py \<or> set ?px = set ?py \<and> distinct (map fst ?px) \<and> distinct (map fst ?py)"
    using assms by (subst (asm) reordered.simps) blast
  then show ?thesis
  proof
    assume "?px = ?py"
    then show ?thesis by simp
  next
    assume a: "set ?px = set ?py \<and> distinct (map fst ?px) \<and> distinct (map fst ?py)"
    then have "distinct ?px" "distinct ?py" by (simp_all add: distinct_map)
    then have "length ?px = length ?py" using a by (metis distinct_card)
    then show ?thesis using sortTuples_reorder [of ?py ?px] a by simp
  qed
qed

lemma reordered_parseStyles:
  assumes "reordered xs ys"
  shows "p_style (parseStyles xs h) = p_style (parseStyles ys h)"
    and "p_isUnique (parseStyles xs h) = p_isUnique (parseStyles ys h)"
    and "list_all2 sameEntry (p_nested (parseStyles xs h)) (p_nested (parseStyles ys h))"
proof -
  show "p_style (parseStyles xs h) = p_style (parseStyles ys h)"
    using reordered_properties [OF assms] by (simp add: parseStyles_def parseStylesLoop_eq)
  show "p_isUnique (parseStyles xs h) = p_isUnique (parseStyles ys h)"
    using assms by (subst (asm) reordered.simps) (simp add: parseStyles_def parseStylesLoop_eq)
  show "list_all2 sameEntry (p_nested (parseStyles xs h)) (p_nested (parseStyles ys h))"
    using reordered_nested [OF assms]
      sortTuples_related [of sameEntry, OF _ reordered_nested [OF assms]]
    by (simp add: parseStyles_def parseStylesLoop_eq sameEntry_def)
qed

lemma reordered_stylize:
  "reordered xs ys \<Longrightarrow>
   stylize selector xs rulesList stylesList parent = stylize selector ys rulesList stylesList parent"
proof (induction xs arbitrary: ys selector rulesList stylesList parent
       rule: measure_induct_rule [where f = "\<lambda>styles. size (Object styles)"])
  case (less xs)
  let ?h = "selector \<noteq> []"
  note p = reordered_parseStyles [OF less.prems, of ?h]
  have step: "list_all2 (\<lambda>a b. \<forall>acc. nestedStep par a acc = nestedStep par b acc)
                (p_nested (parseStyles xs ?h)) (p_nested (parseStyles ys ?h))" for par
  proof (rule list.rel_mono_strong [OF p(3)])
    fix a b
    assume a: "a \<in> set (p_nested (parseStyles xs ?h))" and s: "sameEntry a b"
    have "size (Object (snd a)) < size (Object xs)"
      using parseStyles_nested_size [of "fst a" "snd a" xs ?h] a by simp
    then have "stylize sel (snd a) r s' par' = stylize sel (snd b) r s' par'" for sel r s' par'
      using less.IH [of "snd a" "snd b"] s by (simp add: sameEntry_def)
    then show "\<forall>acc. nestedStep par a acc = nestedStep par b acc"
      using s by (auto simp: nestedStep_def sameEntry_def)
  qed
  show ?case
    by (subst (1 2) stylize_unfold)
       (simp only: Let_def p(1,2) fold_nestedStep_related [OF step])
qed

definition collidingExample :: Styles where
  "collidingExample =
     [(''fontSize'', Scalar (VString ''1px'')), (''font-size'', Scalar (VString ''2px''))]"

definition focusExample :: Styles where
  "focusExample =
     [(''&:hover'', Object [(''color'', Scalar (VString ''red''))]),
      (''&:focus'', Object [(''color'', Scalar (VString ''blue''))])]"

definition nestedExample :: Styles where
  "nestedExample =
     [(''color'', Scalar (VString ''red'')),
      (''margin'', Scalar (VNumber (Number ''0''))),
      (''&:hover'', Object [(''color'', Scalar (VString ''blue'')),
                            (''padding'', Scalar (VString ''1px''))])]"

definition reorderedExample :: Styles where
  "reorderedExample =
     [(''margin'', Scalar (VNumber (Number ''0''))),
      (''&:hover'', Object [(''padding'', Scalar (VString ''1px'')),
                            (''color'', Scalar (VString ''blue''))]),
      (''color'', Scalar (VString ''red''))]"

text \<open>
  Claim C2, as stated for every two trees with the same declaration pairs in different
  authoring orders. It fails in two ways. When two property names of a node have the
  same hyphenated name, as \<open>fontSize\<close> and \<open>font-size\<close>, they are sorted as equal names, on
  which the comparator answers \<open>-1\<close> whichever comes first: the two authoring orders are
  rendered in two different orders and get two different identifiers. And
  \<open>registerStyle\<close> does not sort the nested entries: \<open>&:hover\<close> before \<open>&:focus\<close> and
  \<open>&:focus\<close> before \<open>&:hover\<close>, with the same declarations, get two different
  identifiers and two different texts.
\<close>

theorem declaration_order_counterexample:
  "set (rev collidingExample) = set collidingExample
   \<and> map_option (\<lambda>r. (fst r, fsGetStyles (snd (snd r))))
        (registerStyle False 1 (snd (create 0)) collidingExample)
      = Some (''f14wyqkd'', ''.f14wyqkd{font-size:2px;font-size:1px}'')
   \<and> map_option (\<lambda>r. (fst r, fsGetStyles (snd (snd r))))
        (registerStyle False 1 (snd (create 0)) (rev collidingExample))
      = Some (''fq7qdod'', ''.fq7qdod{font-size:1px;font-size:2px}'')
   \<and> set (rev focusExample) = set focusExample
   \<and> map_option (\<lambda>r. (fst r, fsGetStyles (snd (snd r))))
        (registerStyle False 1 (snd (create 0)) focusExample)
      = Some (''f1bjsx7m'', ''.f1bjsx7m:hover{color:red}.f1bjsx7m:focus{color:blue}'')
   \<and> map_option (\<lambda>r. (fst r, fsGetStyles (snd (snd r))))
        (registerStyle False 1 (snd (create 0)) (rev focusExample))
      = Some (''faw4o9u'', ''.faw4o9u:focus{color:blue}.faw4o9u:hover{color:red}'')"
proof -
  have h: "hyphenate ''fontSize'' = ''font-size''" "hyphenate ''font-size'' = ''font-size''"
    by (simp_all add: hyphenate_def toLowerCase_def isUpper_def char_of_def bit_0)
  have t: "trim ''fontSize'' = ''fontSize''" "trim ''font-size'' = ''font-size''"
    by (simp_all add: trim_def isWhiteSpace_def)
  have s: "set (rev collidingExample) = set collidingExample" by simp
  have a: "map_option (\<lambda>r. (fst r, fsGetStyles (snd (snd r))))
        (registerStyle False 1 (snd (create 0)) collidingExample)
      = Some (''f14wyqkd'', ''.f14wyqkd{font-size:2px;font-size:1px}'')"
    by (simp add: collidingExample_def registerStyle_def stylize.simps parseStyles_def t h
        notDollar_def sortTuples_def compareTuples_def stringifyProperties_def styleToString_def
        getProperty_def isAtRule_def truthyParent_def interpolate_def Let_def key_def
        stringHash_def toString36.simps digit36_def escape_def escapeChars_def create_def
        add.simps addItem.simps merge.simps emptyCache_def countOf_def values_of_def NUL_def
        fsGetStyles_def)
  have b: "map_option (\<lambda>r. (fst r, fsGetStyles (snd (snd r))))
        (registerStyle False 1 (snd (create 0)) (rev collidingExample))
      = Some (''fq7qdod'', ''.fq7qdod{font-size:1px;font-size:2px}'')"
    by (simp add: collidingExample_def registerStyle_def stylize.simps parseStyles_def t h
        notDollar_def sortTuples_def compareTuples_def stringifyProperties_def styleToString_def
        getProperty_def isAtRule_def truthyParent_def interpolate_def Let_def key_def
        stringHash_def toString36.simps digit36_def escape_def escapeChars_def create_def
        add.simps addItem.simps merge.simps emptyCache_def countOf_def values_of_def NUL_def
        fsGetStyles_def)
  have s': "set (rev focusExample) = set focusExample" by simp
  have c: "map_option (\<lambda>r. (fst r, fsGetStyles (snd (snd r))))
        (registerStyle False 1 (snd (create 0)) focusExample)
      = Some (''f1bjsx7m'', ''.f1bjsx7m:hover{color:red}.f1bjsx7m:focus{color:blue}'')"
    by (simp add: focusExample_def eval_simps fsGetStyles_def)
  have d: "map_option (\<lambda>r. (fst r, fsGetStyles (snd (snd r))))
        (registerStyle False 1 (snd (create 0)) (rev focusExample))
      = Some (''faw4o9u'', ''.faw4o9u:focus{color:blue}.faw4o9u:hover{color:red}'')"
    by (simp add: focusExample_def eval_simps fsGetStyles_def)
  from s a b s' c d show ?thesis by (intro conjI)
qed

text \<open>
  Claim C2, amended. The declarations of a node are rendered in ascending order of their
  hyphenated names. Let two trees list the same declarations in different authoring
  orders, at the root and at every nested node: at every node the two have the same set of
  pairs of a hyphenated name and a value, with pairwise distinct hyphenated names, and the
  same \<open>$unique\<close> flag, and the nested entries of the node have the same names in the same
  order. Let the two roots have the same \<open>$displayName\<close>, which is part of the identifier
  outside production. Then \<open>stylize\<close> returns the same for both under every selector, and
  on a FreeStyle whose cache is well formed \<open>registerStyle\<close> returns for both, with the
  same identifier, the same counter and the same FreeStyle, hence the same stylesheet
  text.
\<close>

theorem declaration_order:
  assumes "reordered xs ys"
    and "production \<or> getProperty xs ''$displayName'' = getProperty ys ''$displayName''"
    and "deepInv (fs_cache fs)"
  shows "p_style (parseStyles xs h) = stringifyProperties (sortTuples (concat (map propertyOf xs)))
   \<and> sorted (map fst (sortTuples (concat (map propertyOf xs))))
   \<and> set (sortTuples (concat (map propertyOf xs))) = set (concat (map propertyOf xs))
   \<and> p_style (parseStyles xs h) = p_style (parseStyles ys h)
   \<and> stylize selector xs rulesList stylesList parent = stylize selector ys rulesList stylesList parent
   \<and> styleIdentifier production xs = styleIdentifier production ys
   \<and> (\<exists>u' fs'. registerStyle production u fs xs = Some (styleIdentifier production xs, u', fs')
         \<and> registerStyle production u fs ys = Some (styleIdentifier production xs, u', fs'))"
proof -
  have s: "stylize sel xs rl sl par = stylize sel ys rl sl par" for sel rl sl par
    by (rule reordered_stylize [OF assms(1)])
  have k: "key production pid xs = key production pid ys" for pid
    using assms(2) by (auto simp: key_def)
  have i: "styleIdentifier production xs = styleIdentifier production ys"
    by (simp add: styleIdentifier_def s k)
  have r: "registerStyle production u fs xs = registerStyle production u fs ys"
    by (simp add: registerStyle_def s k)
  obtain u' fs' where "registerStyle production u fs xs = Some (styleIdentifier production xs, u', fs')"
    using registerStyle_success [OF assms(3)] unfolding styleIdentifier_def by blast
  with r have e: "\<exists>u' fs'. registerStyle production u fs xs = Some (styleIdentifier production xs, u', fs')
         \<and> registerStyle production u fs ys = Some (styleIdentifier production xs, u', fs')"
    by metis
  have p: "p_style (parseStyles xs h) = stringifyProperties (sortTuples (concat (map propertyOf xs)))"
    by (simp add: parseStyles_def parseStylesLoop_eq)
  have q: "p_style (parseStyles xs h) = p_style (parseStyles ys h)"
    by (rule reordered_parseStyles(1) [OF assms(1)])
  from p q s i e show ?thesis
    by (simp add: sorted_sortTuples set_sortTuples)
qed

theorem declaration_order_witness:
  "reordered nestedExample reorderedExample
   \<and> getProperty nestedExample ''$displayName'' = getProperty reorderedExample ''$displayName''
   \<and> deepInv (fs_cache (snd (create 0)))
   \<and> p_style (parseStyles reorderedExample True) = ''color:red;margin:0''
   \<and> (\<exists>u' fs'. registerStyle False 1 (snd (create 0)) nestedExample = Some (''f1bwqbx0'', u', fs')
         \<and> registerStyle False 1 (snd (create 0)) reorderedExample = Some (''f1bwqbx0'', u', fs'))"
proof -
  have n: "concat (map nestedOf nestedExample) =
             [(''&:hover'', [(''color'', Scalar (VString ''blue'')),
                            (''padding'', Scalar (VString ''1px''))])]"
    "concat (map nestedOf reorderedExample) =
             [(''&:hover'', [(''padding'', Scalar (VString ''1px'')),
                            (''color'', Scalar (VString ''blue''))])]"
    by (simp_all add: nestedExample_def reorderedExample_def trim_def isWhiteSpace_def
        notDollar_def)
  have inner: "reordered [(''color'', Scalar (VString ''blue'')),
                          (''padding'', Scalar (VString ''1px''))]
                         [(''padding'', Scalar (VString ''1px'')),
                          (''color'', Scalar (VString ''blue''))]"
    by (subst reordered.simps)
       (auto simp: trim_def isWhiteSpace_def notDollar_def hyphenate_def isUpper_def
          getProperty_def)
  have r: "reordered nestedExample reorderedExample"
    unfolding reordered.simps [of nestedExample reorderedExample] n
    using inner
    by (auto simp: nestedExample_def reorderedExample_def trim_def isWhiteSpace_def
        notDollar_def hyphenate_def isUpper_def getProperty_def)
  have g: "getProperty nestedExample ''$displayName'' = getProperty reorderedExample ''$displayName''"
    by (simp add: nestedExample_def reorderedExample_def getProperty_def)
  have d: "deepInv (fs_cache (snd (create 0)))"
    using deepInv_empty by (simp add: create_def)
  have v: "stringifyProperties (sortTuples (concat (map propertyOf nestedExample))) = ''color:red;margin:0''"
    by (simp add: nestedExample_def eval_simps)
  have i: "styleIdentifier False nestedExample = ''f1bwqbx0''"
    by (simp add: styleIdentifier_def nestedExample_def eval_simps)
  note c = declaration_order [OF r disjI2 [OF g] d, where h = True and u = 1 and production = False, unfolded v i]
  have "p_style (parseStyles nestedExample True) = ''color:red;margin:0''"
    and "p_style (parseStyles nestedExample True) = p_style (parseStyles reorderedExample True)"
    using c by blast+
  then have p: "p_style (parseStyles reorderedExample True) = ''color:red;margin:0''"
    by simp
  have e: "\<exists>u' fs'. registerStyle False 1 (snd (create 0)) nestedExample = Some (''f1bwqbx0'', u', fs')
         \<and> registerStyle False 1 (snd (create 0)) reorderedExample = Some (''f1bwqbx0'', u', fs')"
    using c by blast
  from r g d p e show ?thesis by (intro conjI)
qed


section \<open>Unique styles\<close>

text \<open>The three ways in which \<open>add\<close> changes a cache that satisfies the invariant.\<close>

lemma add_cases [consumes 2, case_names new leaf merge]:
  assumes inv: "cacheInv c" and r: "add c s = Some (c', evs)"
  obtains
    (new) item where "nodeId s \<notin> set (keys c)" and "clone s = Some item"
      and "nodeId item = nodeId s" and "keys c' = keys c @ [nodeId s]"
      and "children c' = AList.update (nodeId s) item (children c)"
      and "counters c' = AList.update (nodeId s) 1 (counters c)"
  | (leaf) item where "nodeId s \<in> set (keys c)"
      and "map_of (children c) (nodeId s) = Some item" and "nodeId item = nodeId s"
      and "cacheOf item = None \<or> cacheOf s = None" and "keys c' = keys c"
      and "children c' = children c"
      and "counters c' = AList.update (nodeId s) (countOf c (nodeId s) + 1) (counters c)"
  | (merge) item ic sc ic1 e where "nodeId s \<in> set (keys c)"
      and "map_of (children c) (nodeId s) = Some item" and "nodeId item = nodeId s"
      and "cacheOf item = Some ic" and "cacheOf s = Some sc" and "merge ic sc = Some (ic1, e)"
      and "keys c' = keys c"
      and "children c' = AList.update (nodeId s) (setCache item ic1) (children c)"
      and "counters c' = AList.update (nodeId s) (countOf c (nodeId s) + 1) (counters c)"
proof (cases "nodeId s \<in> set (keys c)")
  case False
  obtain item where "clone s = Some item" "nodeId item = nodeId s"
    "c' = Cache (sheet c @ [getStyles item]) (changeId c + 1) (keys c @ [nodeId s])
            (AList.update (nodeId s) item (children c)) (AList.update (nodeId s) 1 (counters c))"
    using add_new [OF inv False r] by blast
  then show ?thesis using False by (intro new [of item]) simp_all
next
  case True
  let ?k = "nodeId s"
  obtain item where st: "map_of (children c) ?k = Some item" and idk: "nodeId item = ?k"
    using cacheInv_stored [OF inv True] by blast
  have cnt: "countOf c ?k \<noteq> 0" using inv True by (simp add: cacheInv_keys)
  have r': "addItem c s item True = Some (c', evs)" using r st by (simp add: add_stored)
  show ?thesis
  proof (cases "cacheOf item = None \<or> cacheOf s = None")
    case lf: True
    have "c' = Cache (sheet c) (changeId c) (keys c) (children c)
                 (AList.update ?k (countOf c ?k + 1) (counters c))"
      using r' addItem_leaf [OF cnt lf, of True] by simp
    then show ?thesis using True st idk lf by (intro leaf [of item]) simp_all
  next
    case False
    then obtain ic sc where ic: "cacheOf item = Some ic" and sc: "cacheOf s = Some sc" by auto
    from r' obtain ic1 e where m: "merge ic sc = Some (ic1, e)"
      unfolding addItem_merge [OF cnt ic sc] by (auto split: option.splits)
    have "keys c' = keys c \<and> children c' = AList.update ?k (setCache item ic1) (children c)
          \<and> counters c' = AList.update ?k (countOf c ?k + 1) (counters c)"
      using r' m unfolding addItem_merge [OF cnt ic sc]
      by (cases "changeId ic1 = changeId ic") auto
    then show ?thesis using True st idk ic sc m by (intro merge [of item ic sc ic1 e]) simp_all
  qed
qed

lemma clone_cases [consumes 1, case_names plain owner]:
  assumes "clone s = Some item"
  obtains (plain) "cacheOf s = None" and "item = s"
  | (owner) sc c1 e where "cacheOf s = Some sc" and "merge emptyCache sc = Some (c1, e)"
      and "item = setCache s c1"
  using assms by (cases s) (auto simp: clone.simps split: option.splits)

text \<open>
  The ids of the program tell the kind of a node: the id of a \<open>Selector\<close> begins with
  \<open>k\<close> and no id of a \<open>Style\<close> or a \<open>Rule\<close> does, in a cache and in the caches of the nodes
  stored in it.
\<close>

function kinded :: "node \<Rightarrow> bool" where
  "kinded (Selector selector ident) = (take 1 ident = ''k'')"
| "kinded (Style style ident c) = (take 1 ident \<noteq> ''k'' \<and> (\<forall>x \<in> set (children c). kinded (snd x)))"
| "kinded (Rule rule style ident c) = (take 1 ident \<noteq> ''k'' \<and> (\<forall>x \<in> set (children c). kinded (snd x)))"
  by pat_completeness auto
termination
proof (relation "measure size")
  show "wf (measure size)" by simp
next
  fix style ident :: string and c :: "node cache" and x :: "string \<times> node"
  assume "x \<in> set (children c)"
  then have "size (snd x) < Suc (size_list (size_prod (\<lambda>x. 0) size) (children c))"
    using alist_entry_size [of "fst x" "snd x" "children c"] by simp
  then show "(snd x, Style style ident c) \<in> measure size" by (cases c) simp
next
  fix rule style ident :: string and c :: "node cache" and x :: "string \<times> node"
  assume "x \<in> set (children c)"
  then have "size (snd x) < Suc (size_list (size_prod (\<lambda>x. 0) size) (children c))"
    using alist_entry_size [of "fst x" "snd x" "children c"] by simp
  then show "(snd x, Rule rule style ident c) \<in> measure size" by (cases c) simp
qed

definition kindedCache :: "node cache \<Rightarrow> bool" where
  "kindedCache c = (\<forall>x \<in> set (children c). kinded (snd x))"

lemma kinded_iff:
  "kinded n \<longleftrightarrow>
     (case cacheOf n of
        None \<Rightarrow> take 1 (nodeId n) = ''k''
      | Some ic \<Rightarrow> take 1 (nodeId n) \<noteq> ''k'' \<and> kindedCache ic)"
  by (cases n) (simp_all add: kindedCache_def)

lemma kindedCache_empty: "kindedCache emptyCache"
  by (simp add: kindedCache_def emptyCache_def)

lemma kindedCache_stored:
  "kindedCache c \<Longrightarrow> map_of (children c) k = Some item \<Longrightarrow> kinded item"
proof -
  assume k: "kindedCache c" and m: "map_of (children c) k = Some item"
  have "(k, item) \<in> set (children c)" using m by (rule map_of_SomeD)
  then show "kinded item" using k unfolding kindedCache_def by force
qed

lemma kindedCache_update:
  assumes "children c' = AList.update k item (children c)" and "kindedCache c" and "kinded item"
  shows "kindedCache c'"
  unfolding kindedCache_def
proof
  fix x assume "x \<in> set (children c')"
  then have "x = (k, item) \<or> x \<in> set (children c)"
    using set_update_subset [of k item "children c"] assms(1) by auto
  then show "kinded (snd x)" using assms(2,3) by (auto simp: kindedCache_def)
qed

lemma kinded_setCache:
  "kinded n \<Longrightarrow> cacheOf n = Some c0 \<Longrightarrow> kindedCache c \<Longrightarrow> kinded (setCache n c)"
  by (cases n) (simp_all add: kindedCache_def)

lemma kindedCache_values:
  assumes "deepInv c" and "kindedCache c" and "x \<in> set (values_of c)"
  shows "\<exists>it. x = Some it \<and> nodeInv it \<and> kinded it"
proof -
  from assms(3) obtain k where k: "k \<in> set (keys c)" and x: "x = map_of (children c) k"
    by (auto simp: values_of_def)
  obtain item where it: "map_of (children c) k = Some item"
    using cacheInv_stored [OF deepInv_cacheInv [OF assms(1)] k] by blast
  then show ?thesis
    using x deepInv_stored [OF assms(1) it] kindedCache_stored [OF assms(2) it] by simp
qed

text \<open>A well-formed cache in which the ids tell the kinds, and such a node.\<close>

definition sound :: "node cache \<Rightarrow> bool" where
  "sound c = (deepInv c \<and> kindedCache c)"

definition soundNode :: "node \<Rightarrow> bool" where
  "soundNode n = (nodeInv n \<and> kinded n)"

lemma sound_empty: "sound emptyCache"
  by (simp add: sound_def deepInv_empty kindedCache_empty)

lemma sound_values:
  "sound c \<Longrightarrow> x \<in> set (values_of c) \<Longrightarrow> \<exists>it. x = Some it \<and> soundNode it"
  using kindedCache_values [of c x] by (simp add: sound_def soundNode_def)

lemma soundNode_cacheOf: "soundNode n \<Longrightarrow> cacheOf n = Some c \<Longrightarrow> sound c"
  using nodeInv_cacheOf [of n c] by (cases n) (auto simp: sound_def soundNode_def kindedCache_def)

lemma sound_stored: "sound c \<Longrightarrow> map_of (children c) k = Some item \<Longrightarrow> soundNode item"
  using deepInv_stored [of c k item] kindedCache_stored [of c k item]
  by (simp add: sound_def soundNode_def)

lemma add_sound:
  "sound c \<Longrightarrow> soundNode s \<Longrightarrow> \<exists>c' evs. add c s = Some (c', evs) \<and> sound c'"
proof (induction s arbitrary: c rule: measure_induct_rule [where f = size])
  case (less s)
  have d: "deepInv c" and kc: "kindedCache c" using less.prems(1) by (simp_all add: sound_def)
  have ni: "nodeInv s" and ks: "kinded s" using less.prems(2) by (simp_all add: soundNode_def)
  have inv: "cacheInv c" using d by (rule deepInv_cacheInv)
  obtain c' evs where r: "add c s = Some (c', evs)" and d': "deepInv c'"
    using add_success [OF d ni] by blast
  have M: "kindedCache c1" if sc: "cacheOf s = Some sc" and st: "sound this"
    and m: "merge this sc = Some (c1, e)" for this sc c1 e
  proof -
    have ssc: "sound sc" using less.prems(2) sc by (rule soundNode_cacheOf)
    have "sound c1"
    proof (rule fold_bulkStep_invariant [OF m [unfolded merge_bulk], where P = sound])
      show "sound this" by (rule st)
    next
      fix c0 it c2 e'
      assume c0: "sound c0" and it: "Some it \<in> set (values_of sc)" and a: "add c0 it = Some (c2, e')"
      have sn: "soundNode it" using sound_values [OF ssc it] by simp
      have "size it < size_cache size sc" using it by (rule values_of_size)
      also have "\<dots> < size s" using sc by (rule cacheOf_size)
      finally have "\<exists>c' evs. add c0 it = Some (c', evs) \<and> sound c'"
        using less.IH [of it c0] c0 sn by blast
      then show "sound c2" using a by auto
    qed
    then show ?thesis by (simp add: sound_def)
  qed
  have "kindedCache c'"
    using inv r
  proof (cases rule: add_cases)
    case (new item)
    have "kinded item"
      using new(2)
    proof (cases rule: clone_cases)
      case plain
      then show ?thesis using ks by simp
    next
      case (owner sc c1 e)
      have "kindedCache c1" using M [OF owner(1) sound_empty owner(2)] .
      then show ?thesis using owner(1,3) ks by (simp add: kinded_setCache)
    qed
    then show ?thesis using new(5) kc by (rule kindedCache_update [rotated 2])
  next
    case (leaf item)
    then show ?thesis using kc by (simp add: kindedCache_def)
  next
    case (merge item ic sc ic1 e)
    have si: "soundNode item" using less.prems(1) merge(2) by (rule sound_stored)
    have "sound ic" using si merge(4) by (rule soundNode_cacheOf)
    then have "kindedCache ic1" using M [OF merge(5) _ merge(6)] by simp
    then have "kinded (setCache item ic1)"
      using si merge(4) by (simp add: kinded_setCache soundNode_def)
    then show ?thesis using merge(8) kc by (rule kindedCache_update [rotated 2])
  qed
  then show ?case using r d' by (simp add: sound_def)
qed

lemma add_sound_result:
  "sound c \<Longrightarrow> soundNode s \<Longrightarrow> add c s = Some (c', evs) \<Longrightarrow> sound c'"
  using add_sound [of c s] by auto

text \<open>
  The references to an id in a cache at every depth: the reference count of the id in
  the cache itself, and the references to it in the cache of every node stored there.
\<close>

function deepCount :: "node cache \<Rightarrow> string \<Rightarrow> nat" where
  "deepCount c k =
     countOf c k +
     sum_list (map (\<lambda>x. case x of
                          None \<Rightarrow> 0
                        | Some item \<Rightarrow>
                            (case cacheOf item of None \<Rightarrow> 0 | Some ic \<Rightarrow> deepCount ic k))
                   (values_of c))"
  by pat_completeness auto
termination
proof (relation "measure (\<lambda>(c, k). size_cache size c)")
  show "wf (measure (\<lambda>(c, k). size_cache size c))" by simp
next
  fix c :: "node cache" and k :: string and x item ic
  assume "x \<in> set (values_of c)" and "x = Some item" and "cacheOf item = Some ic"
  then have "size_cache size ic < size_cache size c"
    using values_of_size [of item c] cacheOf_size [of item ic] by simp
  then show "((ic, k), (c, k)) \<in> measure (\<lambda>(c, k). size_cache size c)" by simp
qed

declare deepCount.simps [simp del]

text \<open>The references to an id inside a node, and those of the node under its own id.\<close>

definition inside :: "node \<Rightarrow> string \<Rightarrow> nat" where
  "inside n k = (case cacheOf n of None \<Rightarrow> 0 | Some ic \<Rightarrow> deepCount ic k)"

definition nodeCount :: "node \<Rightarrow> string \<Rightarrow> nat" where
  "nodeCount n k = (if nodeId n = k then 1 else 0) + inside n k"

definition insideOpt :: "string \<Rightarrow> node option \<Rightarrow> nat" where
  "insideOpt k x = (case x of None \<Rightarrow> 0 | Some item \<Rightarrow> inside item k)"

definition optCount :: "string \<Rightarrow> node option \<Rightarrow> nat" where
  "optCount k x = (case x of None \<Rightarrow> 0 | Some item \<Rightarrow> nodeCount item k)"

lemma deepCount_keys:
  "deepCount c k =
     countOf c k + sum_list (map (\<lambda>k'. insideOpt k (map_of (children c) k')) (keys c))"
proof -
  have "(\<lambda>x. case x of None \<Rightarrow> 0
            | Some item \<Rightarrow> (case cacheOf item of None \<Rightarrow> 0 | Some ic \<Rightarrow> deepCount ic k))
        = insideOpt k"
    by (auto simp: insideOpt_def inside_def fun_eq_iff split: option.splits)
  then show ?thesis
    by (subst deepCount.simps) (simp add: values_of_def comp_def)
qed

lemma deepCount_empty [simp]: "deepCount emptyCache k = 0"
  by (simp add: deepCount_keys emptyCache_def)

lemma inside_setCache: "cacheOf n = Some c0 \<Longrightarrow> inside (setCache n c) k = deepCount c k"
  by (cases n) (simp_all add: inside_def)

lemma sum_keys_append:
  assumes "ident \<notin> set ks"
  shows "sum_list (map (\<lambda>k'. g (map_of (AList.update ident item ch) k')) (ks @ [ident])) =
         sum_list (map (\<lambda>k'. g (map_of ch k')) ks) + g (Some item)"
proof -
  have "sum_list (map (\<lambda>k'. g (if k' = ident then Some item else map_of ch k')) ks) =
        sum_list (map (\<lambda>k'. g (map_of ch k')) ks)"
    using assms by (intro arg_cong [where f = sum_list] map_cong) auto
  then show ?thesis by (simp add: update_conv')
qed

lemma sum_keys_update:
  assumes "distinct ks" and "ident \<in> set ks"
  shows "sum_list (map (\<lambda>k'. g (map_of (AList.update ident item ch) k')) ks) + g (map_of ch ident) =
         sum_list (map (\<lambda>k'. g (map_of ch k')) ks) + (g (Some item) :: nat)"
  using assms
proof (induction ks)
  case Nil
  then show ?case by simp
next
  case (Cons a ks)
  show ?case
  proof (cases "a = ident")
    case True
    then have "ident \<notin> set ks" using Cons.prems(1) by simp
    then have "sum_list (map (\<lambda>k'. g (if k' = ident then Some item else map_of ch k')) ks) =
               sum_list (map (\<lambda>k'. g (map_of ch k')) ks)"
      by (intro arg_cong [where f = sum_list] map_cong) auto
    then show ?thesis using True by (simp add: update_conv')
  next
    case False
    then have "ident \<in> set ks" using Cons.prems(2) by simp
    then show ?thesis using Cons.IH Cons.prems(1) False by (simp add: update_conv')
  qed
qed

lemma countOf_counters:
  "counters c' = AList.update ident n (counters c) \<Longrightarrow>
   countOf c' k = (if k = ident then n else countOf c k)"
  by (simp add: countOf_def update_conv')

lemma sum_list_count:
  "sum_list (map (\<lambda>k'. if k' = k then 1 else 0) ks) = count_list ks k"
  by (induction ks) auto

lemma count_list_distinct:
  "distinct ks \<Longrightarrow> count_list ks k = (if k \<in> set ks then 1 else 0)"
  by (induction ks) auto

text \<open>The nodes stored in a cache that holds an id at most once, counted one by one.\<close>

lemma values_count:
  assumes "cacheInv sc" and "deepCount sc k \<le> 1"
  shows "sum_list (map (optCount k) (values_of sc)) = deepCount sc k"
proof -
  have st: "\<And>k'. k' \<in> set (keys sc) \<Longrightarrow>
            optCount k (map_of (children sc) k') =
              (if k' = k then 1 else 0) + insideOpt k (map_of (children sc) k')"
  proof -
    fix k' assume "k' \<in> set (keys sc)"
    then obtain item where "map_of (children sc) k' = Some item" "nodeId item = k'"
      using cacheInv_stored [OF assms(1)] by blast
    then show "optCount k (map_of (children sc) k') =
              (if k' = k then 1 else 0) + insideOpt k (map_of (children sc) k')"
      by (simp add: optCount_def insideOpt_def nodeCount_def)
  qed
  have "sum_list (map (optCount k) (values_of sc)) =
        sum_list (map (\<lambda>k'. (if k' = k then 1 else 0) + insideOpt k (map_of (children sc) k')) (keys sc))"
    unfolding values_of_def map_map comp_def
    by (rule arg_cong [where f = sum_list], rule map_cong) (simp_all add: st)
  also have "\<dots> = sum_list (map (\<lambda>k'. if k' = k then 1 else 0) (keys sc)) +
                  sum_list (map (\<lambda>k'. insideOpt k (map_of (children sc) k')) (keys sc))"
    by (simp add: sum_list_addf)
  also have "sum_list (map (\<lambda>k'. if k' = k then 1 else 0) (keys sc)) = count_list (keys sc) k"
    by (rule sum_list_count)
  also have "count_list (keys sc) k = (if k \<in> set (keys sc) then 1 else 0)"
    using assms(1) by (simp add: cacheInv_def count_list_distinct)
  also have "(if k \<in> set (keys sc) then 1 else 0) = countOf sc k"
  proof -
    have "countOf sc k \<le> 1" using assms(2) by (simp add: deepCount_keys)
    then show ?thesis using cacheInv_keys [OF assms(1), of k] by auto
  qed
  finally show ?thesis by (simp add: deepCount_keys)
qed

lemma fold_add_deepCount:
  assumes step: "\<And>c0 it c1 e. Some it \<in> set items \<Longrightarrow> sound c0 \<Longrightarrow> add c0 it = Some (c1, e) \<Longrightarrow>
             nodeCount it k = 0 \<or> deepCount c0 k + nodeCount it k \<le> 1 \<Longrightarrow>
             deepCount c1 k = deepCount c0 k + nodeCount it k"
    and nodes: "\<And>x. x \<in> set items \<Longrightarrow> \<exists>it. x = Some it \<and> soundNode it"
    and f: "fold (bulkStep add) items (Some (c, evs)) = Some (c', evs')"
    and s: "sound c"
    and b: "sum_list (map (optCount k) items) = 0 \<or>
            deepCount c k + sum_list (map (optCount k) items) \<le> 1"
  shows "deepCount c' k = deepCount c k + sum_list (map (optCount k) items)"
  using assms
proof (induction items arbitrary: c evs)
  case Nil
  then show ?case by simp
next
  case (Cons x items)
  from Cons.prems(3) obtain it c1 e where
    it: "x = Some it" and a: "add c it = Some (c1, e)"
    and rest: "fold (bulkStep add) items (Some (c1, evs @ e)) = Some (c', evs')"
    by (rule fold_bulkStep_SomeD)
  have sn: "soundNode it" using Cons.prems(2) [of x] it by simp
  have s1: "sound c1" using Cons.prems(4) sn a by (rule add_sound_result)
  have o: "optCount k x = nodeCount it k" using it by (simp add: optCount_def)
  have "nodeCount it k = 0 \<or> deepCount c k + nodeCount it k \<le> 1"
    using Cons.prems(5) o by auto
  then have d1: "deepCount c1 k = deepCount c k + nodeCount it k"
    using Cons.prems(1) [of it c c1 e] it Cons.prems(4) a by simp
  have "deepCount c' k = deepCount c1 k + sum_list (map (optCount k) items)"
  proof (rule Cons.IH [OF _ _ rest s1])
    fix c0 it' c2 e'
    assume "Some it' \<in> set items" "sound c0" "add c0 it' = Some (c2, e')"
      "nodeCount it' k = 0 \<or> deepCount c0 k + nodeCount it' k \<le> 1"
    then show "deepCount c2 k = deepCount c0 k + nodeCount it' k"
      using Cons.prems(1) [of it' c0 c2 e'] by simp
  next
    fix y assume "y \<in> set items"
    then show "\<exists>it. y = Some it \<and> soundNode it" using Cons.prems(2) [of y] by simp
  next
    show "sum_list (map (optCount k) items) = 0 \<or>
          deepCount c1 k + sum_list (map (optCount k) items) \<le> 1"
      using Cons.prems(5) d1 o by auto
  qed
  then show ?case using d1 o by simp
qed

text \<open>
  \<open>add\<close> counts the references of the node: when the node holds no reference to an id,
  or the cache and the node together hold at most one, the cache holds afterwards the
  references of both.
\<close>

lemma add_deepCount:
  "sound c \<Longrightarrow> soundNode s \<Longrightarrow> add c s = Some (c', evs) \<Longrightarrow>
   nodeCount s k = 0 \<or> deepCount c k + nodeCount s k \<le> 1 \<Longrightarrow>
   deepCount c' k = deepCount c k + nodeCount s k"
proof (induction s arbitrary: c c' evs rule: measure_induct_rule [where f = size])
  case (less s)
  let ?ident = "nodeId s"
  have inv: "cacheInv c" using less.prems(1) by (simp add: sound_def deepInv_cacheInv)
  have M: "deepCount c1 k = deepCount this k + deepCount sc k"
    if sc: "cacheOf s = Some sc" and st: "sound this" and m: "merge this sc = Some (c1, e)"
      and b: "deepCount sc k = 0 \<or> deepCount this k + deepCount sc k \<le> 1" for this sc c1 e
  proof -
    have ssc: "sound sc" using less.prems(2) sc by (rule soundNode_cacheOf)
    have isc: "cacheInv sc" using ssc by (simp add: sound_def deepInv_cacheInv)
    have le: "deepCount sc k \<le> 1" using b by auto
    have v: "sum_list (map (optCount k) (values_of sc)) = deepCount sc k"
      using isc le by (rule values_count)
    have "deepCount c1 k = deepCount this k + sum_list (map (optCount k) (values_of sc))"
    proof (rule fold_add_deepCount [OF _ _ m [unfolded merge_bulk] st])
      fix c0 it c2 e'
      assume it: "Some it \<in> set (values_of sc)" and c0: "sound c0" and a: "add c0 it = Some (c2, e')"
        and h: "nodeCount it k = 0 \<or> deepCount c0 k + nodeCount it k \<le> 1"
      have sn: "soundNode it" using sound_values [OF ssc it] by simp
      have "size it < size_cache size sc" using it by (rule values_of_size)
      also have "\<dots> < size s" using sc by (rule cacheOf_size)
      finally show "deepCount c2 k = deepCount c0 k + nodeCount it k"
        using less.IH [of it c0 c2 e'] c0 sn a h by blast
    next
      fix x assume "x \<in> set (values_of sc)"
      then show "\<exists>it. x = Some it \<and> soundNode it" using sound_values [OF ssc] by blast
    next
      show "sum_list (map (optCount k) (values_of sc)) = 0 \<or>
            deepCount this k + sum_list (map (optCount k) (values_of sc)) \<le> 1"
        using b unfolding v .
    qed
    then show ?thesis unfolding v .
  qed
  show ?case
    using inv less.prems(3)
  proof (cases rule: add_cases)
    case (new item)
    have c0: "countOf c ?ident = 0" using inv new(1) by (simp add: cacheInv_keys)
    have cnt: "countOf c' k = countOf c k + (if ?ident = k then 1 else 0)"
      using c0 by (auto simp: countOf_counters [OF new(6)])
    have ins: "inside item k = inside s k"
      using new(2)
    proof (cases rule: clone_cases)
      case plain
      then show ?thesis by simp
    next
      case (owner sc c1 e)
      have i: "inside s k = deepCount sc k" using owner(1) by (simp add: inside_def)
      have "deepCount sc k = 0 \<or> deepCount emptyCache k + deepCount sc k \<le> 1"
        using less.prems(4) i by (auto simp: nodeCount_def)
      then have "deepCount c1 k = deepCount emptyCache k + deepCount sc k"
        by (rule M [OF owner(1) sound_empty owner(2)])
      then show ?thesis using owner(1,3) i by (simp add: inside_setCache)
    qed
    have "sum_list (map (\<lambda>k'. insideOpt k (map_of (children c') k')) (keys c')) =
          sum_list (map (\<lambda>k'. insideOpt k (map_of (children c) k')) (keys c)) + inside item k"
      unfolding new(4,5) using sum_keys_append [OF new(1), of "insideOpt k" item "children c"]
      by (simp add: insideOpt_def)
    then show ?thesis
      using cnt ins by (simp add: deepCount_keys nodeCount_def)
  next
    case (leaf item)
    have cnt: "countOf c' k = countOf c k + (if ?ident = k then 1 else 0)"
      by (auto simp: countOf_counters [OF leaf(7)])
    have "inside s k = 0"
    proof (cases "cacheOf s")
      case None
      then show ?thesis by (simp add: inside_def)
    next
      case (Some sc)
      then have n: "cacheOf item = None" using leaf(4) by simp
      have "kinded item" using less.prems(1) leaf(2) by (auto simp: sound_def kindedCache_stored)
      then have "take 1 (nodeId item) = ''k''" using n by (simp add: kinded_iff)
      moreover have "take 1 (nodeId s) \<noteq> ''k''"
        using less.prems(2) Some by (simp add: soundNode_def kinded_iff)
      ultimately show ?thesis using leaf(3) by simp
    qed
    then show ?thesis
      using cnt leaf(5,6) by (simp add: deepCount_keys nodeCount_def)
  next
    case (merge item ic sc ic1 e)
    have cnt: "countOf c' k = countOf c k + (if ?ident = k then 1 else 0)"
      by (auto simp: countOf_counters [OF merge(9)])
    have i: "inside s k = deepCount sc k" using merge(5) by (simp add: inside_def)
    have si: "soundNode item" using less.prems(1) merge(2) by (rule sound_stored)
    have sic: "sound ic" using si merge(4) by (rule soundNode_cacheOf)
    have dk: "distinct (keys c)" using inv by (simp add: cacheInv_def)
    let ?S = "sum_list (map (\<lambda>k'. insideOpt k (map_of (children c) k')) (keys c))"
    let ?S' = "sum_list (map (\<lambda>k'. insideOpt k (map_of (children c') k')) (keys c'))"
    have eq: "?S' + deepCount ic k = ?S + deepCount ic1 k"
      unfolding merge(7,8)
      using sum_keys_update [OF dk merge(1), of "insideOpt k" "setCache item ic1" "children c"]
        merge(2,4)
      by (simp add: insideOpt_def inside_def cacheOf_setCache [OF merge(4)])
    have "insideOpt k (map_of (children c) ?ident) \<in>
            set (map (\<lambda>k'. insideOpt k (map_of (children c) k')) (keys c))"
      using merge(1) by simp
    then have "insideOpt k (map_of (children c) ?ident) \<le> ?S"
      by (intro member_le_sum_list) simp_all
    then have le: "deepCount ic k \<le> deepCount c k"
      using merge(2,4) by (simp add: insideOpt_def inside_def deepCount_keys)
    have "deepCount sc k = 0 \<or> deepCount ic k + deepCount sc k \<le> 1"
      using less.prems(4) i le by (auto simp: nodeCount_def)
    then have "deepCount ic1 k = deepCount ic k + deepCount sc k"
      by (rule M [OF merge(5) sic merge(6)])
    then show ?thesis
      using cnt i eq by (simp add: deepCount_keys nodeCount_def)
  qed
qed

text \<open>No id of the cache was made from a value of the counter above \<open>u\<close>.\<close>

definition freshFrom :: "nat \<Rightarrow> node cache \<Rightarrow> bool" where
  "freshFrom u c = (\<forall>n>u. uniqueStyleId n \<notin> set (keys c))"

text \<open>The cache holds the id \<open>k\<close> once, with the text \<open>t\<close> in its slot of the sheet.\<close>

definition entry :: "node cache \<Rightarrow> string \<Rightarrow> string \<Rightarrow> bool" where
  "entry c k t =
     (k \<in> set (keys c) \<and> countOf c k = 1 \<and> sheet c ! nat (indexOf (keys c) k) = t)"

lemma indexOf_append: "k \<in> set xs \<Longrightarrow> indexOf (xs @ ys) k = indexOf xs k"
  by (induction xs) (auto simp: Let_def)

lemma add_keys:
  assumes "cacheInv c" and "add c s = Some (c', e)"
  shows "set (keys c') = insert (nodeId s) (set (keys c))"
proof (cases "nodeId s \<in> set (keys c)")
  case True
  then show ?thesis using add_existing [OF assms(1) True assms(2)] by auto
next
  case False
  then show ?thesis using add_new [OF assms(1) False assms(2)] by auto
qed

lemma add_entry_other:
  assumes inv: "cacheInv c" and a: "add c s = Some (c', e)" and ne: "nodeId s \<noteq> k"
    and en: "entry c k t"
  shows "entry c' k t"
proof -
  have k: "k \<in> set (keys c)" and tx: "sheet c ! nat (indexOf (keys c) k) = t"
    using en by (simp_all add: entry_def)
  have cnt: "countOf c' k = 1" using add_countOf [OF a, of k] ne en by (simp add: entry_def)
  have ik: "nat (indexOf (keys c) k) < length (keys c)" "keys c ! nat (indexOf (keys c) k) = k"
    using indexOf_member [OF k] by simp_all
  have len: "length (sheet c) = length (keys c)"
    using inv by (simp add: cacheInv_def aligned_iff)
  show ?thesis
  proof (cases "nodeId s \<in> set (keys c)")
    case True
    obtain item1 ci where
      c': "c' = Cache ((sheet c)[nat (indexOf (keys c) (nodeId s)) := getStyles item1]) ci (keys c)
                  (AList.update (nodeId s) item1 (children c))
                  (AList.update (nodeId s) (countOf c (nodeId s) + 1) (counters c))"
      using add_existing [OF inv True a] by blast
    have "keys c ! nat (indexOf (keys c) (nodeId s)) = nodeId s"
      using indexOf_member [OF True] by simp
    then have "nat (indexOf (keys c) (nodeId s)) \<noteq> nat (indexOf (keys c) k)"
      using ik(2) ne by auto
    then have "sheet c' ! nat (indexOf (keys c') k) = t"
      using c' tx by simp
    moreover have "k \<in> set (keys c')" using c' k by simp
    ultimately show ?thesis using cnt by (simp add: entry_def)
  next
    case False
    obtain item where
      c': "c' = Cache (sheet c @ [getStyles item]) (changeId c + 1) (keys c @ [nodeId s])
                  (AList.update (nodeId s) item (children c))
                  (AList.update (nodeId s) 1 (counters c))"
      using add_new [OF inv False a] by blast
    have "indexOf (keys c') k = indexOf (keys c) k" using c' k by (simp add: indexOf_append)
    then have "sheet c' ! nat (indexOf (keys c') k) = t"
      using c' tx ik(1) len by (simp add: nth_append)
    moreover have "k \<in> set (keys c')" using c' k by simp
    ultimately show ?thesis using cnt by (simp add: entry_def)
  qed
qed

lemma uniqueStyleId_shape:
  "uniqueStyleId n \<noteq> ''s'' @ x" "uniqueStyleId n \<noteq> ''r'' @ x"
  by (simp_all add: uniqueStyleId_def)

text \<open>
  Adding a node whose id is not made from a value of the counter at or below \<open>u\<close>, or
  is made from the next value.
\<close>

lemma add_fresh_step:
  assumes inv: "cacheInv c" and fr: "freshFrom u c" and a: "add c s = Some (c', e)"
    and u1: "u \<le> u1" and sid: "\<forall>n>u1. nodeId s \<noteq> uniqueStyleId n"
    and old: "\<forall>m\<le>u. nodeId s \<noteq> uniqueStyleId m"
  shows "cacheInv c' \<and> freshFrom u1 c'
           \<and> (\<forall>m t. m \<le> u \<longrightarrow> entry c (uniqueStyleId m) t \<longrightarrow> entry c' (uniqueStyleId m) t)"
proof -
  have "cacheInv c'" using inv a by (rule add_cacheInv)
  moreover have "freshFrom u1 c'"
    using fr u1 sid add_keys [OF inv a] by (auto simp: freshFrom_def)
  moreover have "entry c' (uniqueStyleId m) t" if "m \<le> u" "entry c (uniqueStyleId m) t" for m t
    using add_entry_other [OF inv a _ that(2)] old that(1) by simp
  ultimately show ?thesis by blast
qed


lemma composeStyles_fresh:
  "cacheInv c \<Longrightarrow> freshFrom u c \<Longrightarrow>
   composeStyles u c pid stylesList className isStyle = Some (u', c', e) \<Longrightarrow>
   u \<le> u' \<and> cacheInv c' \<and> freshFrom u' c'
     \<and> (\<forall>m t. m \<le> u \<longrightarrow> entry c (uniqueStyleId m) t \<longrightarrow> entry c' (uniqueStyleId m) t)"
proof (induction stylesList arbitrary: u c e)
  case Nil
  then show ?case by simp
next
  case (Cons s stylesList)
  let ?k = "if isStyle then interpolate (ss_selector s) className else ss_selector s"
  let ?u1 = "if ss_isUnique s then u + 1 else u"
  let ?ident = "if ss_isUnique s then uniqueStyleId ?u1 else ''s'' @ NUL @ pid @ NUL @ ss_style s"
  let ?n = "Style (ss_style s) ?ident (selectorCache ?k (''k'' @ NUL @ pid @ NUL @ ?k) 1)"
  have step: "composeStyles u c pid (s # stylesList) className isStyle =
     (case add c ?n of
        None \<Rightarrow> None
      | Some (c1, evs1) \<Rightarrow>
          (case composeStyles ?u1 c1 pid stylesList className isStyle of
             None \<Rightarrow> None
           | Some (u2, c2, evs2) \<Rightarrow> Some (u2, c2, evs1 @ evs2)))"
    by (simp add: Let_def add_selector uniqueStyleId_def)
  from Cons.prems(3) obtain c1 e1 e2 where a: "add c ?n = Some (c1, e1)"
    and r: "composeStyles ?u1 c1 pid stylesList className isStyle = Some (u', c', e2)"
    unfolding step by (auto split: option.splits)
  have sid: "\<forall>n>?u1. nodeId ?n \<noteq> uniqueStyleId n"
    by (auto simp: uniqueStyleId_def dest: toString36_inj)
  have old: "\<forall>m\<le>u. nodeId ?n \<noteq> uniqueStyleId m"
    by (auto simp: uniqueStyleId_def dest: toString36_inj)
  have s1: "cacheInv c1 \<and> freshFrom ?u1 c1
           \<and> (\<forall>m t. m \<le> u \<longrightarrow> entry c (uniqueStyleId m) t \<longrightarrow> entry c1 (uniqueStyleId m) t)"
    by (rule add_fresh_step [OF Cons.prems(1,2) a _ sid old]) simp
  have s2: "?u1 \<le> u' \<and> cacheInv c' \<and> freshFrom u' c'
     \<and> (\<forall>m t. m \<le> ?u1 \<longrightarrow> entry c1 (uniqueStyleId m) t \<longrightarrow> entry c' (uniqueStyleId m) t)"
    using Cons.IH [OF _ _ r] s1 by blast
  have le: "u \<le> ?u1" by simp
  have "u \<le> u'" by (rule le_trans [OF le conjunct1 [OF s2]])
  moreover have "entry c' (uniqueStyleId m) t" if "m \<le> u" "entry c (uniqueStyleId m) t" for m t
  proof -
    have "entry c1 (uniqueStyleId m) t" using s1 that by blast
    moreover have "m \<le> ?u1" using that(1) by simp
    ultimately show ?thesis using s2 by blast
  qed
  ultimately show ?case using s2 by blast
qed

lemma composeStylize_fresh:
  "cacheInv c \<Longrightarrow> freshFrom u c \<Longrightarrow>
   composeStylize u c pid rulesList stylesList className isStyle = Some (u', c', e) \<Longrightarrow>
   u \<le> u' \<and> cacheInv c' \<and> freshFrom u' c'
     \<and> (\<forall>m t. m \<le> u \<longrightarrow> entry c (uniqueStyleId m) t \<longrightarrow> entry c' (uniqueStyleId m) t)"
  and composeRules_fresh:
  "cacheInv c \<Longrightarrow> freshFrom u c \<Longrightarrow>
   composeRules u c pid rulesList className isStyle = Some (u', c', e) \<Longrightarrow>
   u \<le> u' \<and> cacheInv c' \<and> freshFrom u' c'
     \<and> (\<forall>m t. m \<le> u \<longrightarrow> entry c (uniqueStyleId m) t \<longrightarrow> entry c' (uniqueStyleId m) t)"
proof (induction u c pid rulesList stylesList className isStyle
       and u c pid rulesList className isStyle
       arbitrary: u' c' e and u' c' e rule: composeStylize_composeRules.induct)
  case (1 uniqueId c pid rulesList stylesList className isStyle)
  from "1.prems"(3) obtain u1 c1 e1 e2 where
    s: "composeStyles uniqueId c pid stylesList className isStyle = Some (u1, c1, e1)"
    and r: "composeRules u1 c1 pid rulesList className isStyle = Some (u', c', e2)"
    by (auto split: option.splits)
  have s1: "uniqueId \<le> u1 \<and> cacheInv c1 \<and> freshFrom u1 c1
     \<and> (\<forall>m t. m \<le> uniqueId \<longrightarrow> entry c (uniqueStyleId m) t \<longrightarrow> entry c1 (uniqueStyleId m) t)"
    using composeStyles_fresh [OF "1.prems"(1,2) s] .
  have "u1 \<le> u' \<and> cacheInv c' \<and> freshFrom u' c'
     \<and> (\<forall>m t. m \<le> u1 \<longrightarrow> entry c1 (uniqueStyleId m) t \<longrightarrow> entry c' (uniqueStyleId m) t)"
    using "1.IH" [OF s refl refl _ _ r] s1 by blast
  then show ?case using s1 by auto
next
  case (2 uniqueId c pid className isStyle)
  then show ?case by simp
next
  case (3 uniqueId c pid r rulesList className isStyle)
  let ?ident = "''r'' @ NUL @ pid @ NUL @ sr_selector r @ NUL @ sr_style r"
  from "3.prems"(3) obtain u1 ic e0 c1 e1 e2 where
    i: "composeStylize uniqueId emptyCache pid (sr_rules r) (sr_styles r) className isStyle
          = Some (u1, ic, e0)"
    and a: "add c (Rule (sr_selector r) (sr_style r) ?ident ic) = Some (c1, e1)"
    and rest: "composeRules u1 c1 pid rulesList className isStyle = Some (u', c', e2)"
    by (auto simp: Let_def split: option.splits)
  have "freshFrom uniqueId emptyCache" by (simp add: freshFrom_def emptyCache_def)
  then have le: "uniqueId \<le> u1"
    using "3.IH"(1) [OF refl cacheInv_empty _ i] by blast
  have sid: "\<forall>n>u1. nodeId (Rule (sr_selector r) (sr_style r) ?ident ic) \<noteq> uniqueStyleId n"
    and old: "\<forall>m\<le>uniqueId. nodeId (Rule (sr_selector r) (sr_style r) ?ident ic) \<noteq> uniqueStyleId m"
    by (simp_all add: uniqueStyleId_def)
  have s1: "cacheInv c1 \<and> freshFrom u1 c1
     \<and> (\<forall>m t. m \<le> uniqueId \<longrightarrow> entry c (uniqueStyleId m) t \<longrightarrow> entry c1 (uniqueStyleId m) t)"
    by (rule add_fresh_step [OF "3.prems"(1,2) a le sid old])
  have "u1 \<le> u' \<and> cacheInv c' \<and> freshFrom u' c'
     \<and> (\<forall>m t. m \<le> u1 \<longrightarrow> entry c1 (uniqueStyleId m) t \<longrightarrow> entry c' (uniqueStyleId m) t)"
    using "3.IH"(2) [OF refl i refl refl a refl _ _ rest] s1 by blast
  then show ?case using s1 le by auto
qed


text \<open>The class selector of a registered tree and the rule of its own declarations.\<close>

definition classSelector :: "bool \<Rightarrow> Styles \<Rightarrow> string" where
  "classSelector production T =
     ''.'' @ (if production then styleIdentifier production T
              else escape (styleIdentifier production T))"

definition classRule :: "bool \<Rightarrow> Styles \<Rightarrow> string" where
  "classRule production T =
     classSelector production T @ ''{'' @ p_style (parseStyles T True) @ ''}''"

text \<open>
  One registration of a tree whose own declarations are flagged unique: the first node
  that is added is the Style of the class, under the id made from the next value of the
  counter.
\<close>

lemma registerStyle_unique:
  assumes d: "deepInv (fs_cache fs)" and fr: "freshFrom u (fs_cache fs)"
    and st: "p_style (parseStyles T True) \<noteq> []" and un: "p_isUnique (parseStyles T True)"
  shows "\<exists>u1 fs1.
           registerStyle production u fs T = Some (styleIdentifier production T, u1, fs1)
           \<and> u < u1 \<and> deepInv (fs_cache fs1) \<and> freshFrom u1 (fs_cache fs1)
           \<and> entry (fs_cache fs1) (uniqueStyleId (u + 1)) (classRule production T)
           \<and> (\<forall>m t. m \<le> u \<longrightarrow> entry (fs_cache fs) (uniqueStyleId m) t
                  \<longrightarrow> entry (fs_cache fs1) (uniqueStyleId m) t)"
proof -
  let ?c = "fs_cache fs"
  let ?st = "p_style (parseStyles T True)"
  let ?root = "\<lparr> ss_selector = ''&'', ss_style = ?st, ss_isUnique = True \<rparr>"
  obtain pid rulesList stylesList where s: "stylize ''&'' T [] [] None = (pid, rulesList, stylesList)"
    by (cases "stylize ''&'' T [] [] None")
  obtain rest where sl: "stylesList = ?root # rest"
    using stylize_plain_entry [of "''&''" T "[]" "[]" None] st un s
    by (auto simp: isAtRule_def truthyParent_def)
  have i: "styleIdentifier production T = key production pid T"
    using s by (simp add: styleIdentifier_def)
  define sel where "sel = classSelector production T"
  have sel: "sel = ''.'' @ (if production then key production pid T else escape (key production pid T))"
    unfolding sel_def classSelector_def i ..
  have ia: "interpolate ''&'' sel = sel" unfolding sel by (rule interpolate_amp)
  let ?k1 = "uniqueStyleId (u + 1)"
  let ?n = "Style ?st ?k1 (selectorCache sel (''k'' @ NUL @ pid @ NUL @ sel) 1)"
  obtain u1 fs1 where r: "registerStyle production u fs T = Some (styleIdentifier production T, u1, fs1)"
    and d1: "deepInv (fs_cache fs1)"
    using registerStyle_success [OF d] unfolding styleIdentifier_def by blast
  have reg: "registerStyle production u fs T =
     (case composeStylize u ?c pid rulesList (?root # rest) sel True of
        None \<Rightarrow> None
      | Some (u1, c, evs) \<Rightarrow>
          Some (key production pid T, u1, fs\<lparr> fs_cache := c, fs_changes := fs_changes fs @ evs \<rparr>))"
    by (cases production)
       (simp_all add: registerStyle_def s sl sel Let_def del: composeStylize.simps
          split: option.splits)
  from r obtain e where c: "composeStylize u ?c pid rulesList (?root # rest) sel True
                              = Some (u1, fs_cache fs1, e)"
    unfolding reg by (auto split: option.splits)
  have step: "composeStyles u ?c pid (?root # rest) sel True =
     (case add ?c ?n of
        None \<Rightarrow> None
      | Some (c1, evs1) \<Rightarrow>
          (case composeStyles (u + 1) c1 pid rest sel True of
             None \<Rightarrow> None
           | Some (u2, c2, evs2) \<Rightarrow> Some (u2, c2, evs1 @ evs2)))"
    by (simp add: Let_def add_selector uniqueStyleId_def ia split: option.splits)
  have inv: "cacheInv ?c" using d by (rule deepInv_cacheInv)
  have k1: "?k1 \<notin> set (keys ?c)" using fr by (simp add: freshFrom_def)
  let ?c1 = "Cache (sheet ?c @ [sel @ ''{'' @ ?st @ ''}'']) (changeId ?c + 1) (keys ?c @ [?k1])
               (AList.update ?k1 ?n (children ?c)) (AList.update ?k1 1 (counters ?c))"
  have a: "add ?c ?n = Some (?c1, [AddEvent ?n (int (length (keys ?c)))])"
    by (rule add_style_first [OF inv k1])
  from c obtain u2 c2 e2 e3 where
    cs: "composeStyles (u + 1) ?c1 pid rest sel True = Some (u2, c2, e2)"
    and cr: "composeRules u2 c2 pid rulesList sel True = Some (u1, fs_cache fs1, e3)"
    unfolding composeStylize.simps step a by (auto split: option.splits)
  have inv1: "cacheInv ?c1" using inv a by (rule add_cacheInv)
  have len: "length (sheet ?c) = length (keys ?c)"
    using inv by (simp add: cacheInv_def aligned_iff)
  have en1: "entry ?c1 ?k1 (classRule production T)"
    using k1 len [symmetric]
    by (simp add: entry_def update_conv' indexOf_append_last classRule_def sel_def [symmetric])
  have sid: "\<forall>n>u + 1. nodeId ?n \<noteq> uniqueStyleId n"
    and old: "\<forall>m\<le>u. nodeId ?n \<noteq> uniqueStyleId m"
    by (auto dest: uniqueStyleId_inj)
  have s1: "cacheInv ?c1 \<and> freshFrom (u + 1) ?c1
           \<and> (\<forall>m t. m \<le> u \<longrightarrow> entry ?c (uniqueStyleId m) t \<longrightarrow> entry ?c1 (uniqueStyleId m) t)"
    by (rule add_fresh_step [OF inv fr a _ sid old]) simp
  have s2: "u + 1 \<le> u2 \<and> cacheInv c2 \<and> freshFrom u2 c2
     \<and> (\<forall>m t. m \<le> u + 1 \<longrightarrow> entry ?c1 (uniqueStyleId m) t \<longrightarrow> entry c2 (uniqueStyleId m) t)"
    using composeStyles_fresh [OF _ _ cs] s1 by blast
  have s3: "u2 \<le> u1 \<and> cacheInv (fs_cache fs1) \<and> freshFrom u1 (fs_cache fs1)
     \<and> (\<forall>m t. m \<le> u2 \<longrightarrow> entry c2 (uniqueStyleId m) t \<longrightarrow> entry (fs_cache fs1) (uniqueStyleId m) t)"
    using composeRules_fresh [OF _ _ cr] s2 by blast
  have "u < u1" using s2 s3 by simp
  moreover have "entry (fs_cache fs1) ?k1 (classRule production T)"
    using en1 s2 s3 by (meson le_refl le_trans)
  moreover have "entry (fs_cache fs1) (uniqueStyleId m) t"
    if "m \<le> u" "entry ?c (uniqueStyleId m) t" for m t
  proof -
    have "entry ?c1 (uniqueStyleId m) t" using s1 that by blast
    moreover have "m \<le> u + 1" using that(1) by simp
    ultimately have "entry c2 (uniqueStyleId m) t" using s2 by blast
    moreover have "m \<le> u2" using that(1) s2 by simp
    ultimately show ?thesis using s3 by blast
  qed
  ultimately show ?thesis using r d1 s3 by blast
qed


lemma classRule_flat:
  "concat (map nestedOf T) = [] \<Longrightarrow> classRule production T = flatRule production T"
  by (simp add: classRule_def classSelector_def flatRule_def flatClass_def styleIdentifier_flat)

lemma entry_slot:
  assumes "entry c k t"
  shows "nat (indexOf (keys c) k) < length (keys c) \<and> keys c ! nat (indexOf (keys c) k) = k
           \<and> sheet c ! nat (indexOf (keys c) k) = t \<and> countOf c k = 1"
  using assms indexOf_member [of k "keys c"] by (simp add: entry_def)

text \<open>
  Two registrations of a tree with declarations of its own, no nested entries and
  \<open>$unique\<close> set: each one appends a Style under the id made from the next value of the
  counter.
\<close>

lemma registerStyle_unique_flat:
  assumes "cacheInv (fs_cache fs)"
    and "concat (map nestedOf T) = []" and "p_style (parseStyles T True) \<noteq> []"
    and "p_isUnique (parseStyles T True)"
    and "\<forall>n>u. uniqueStyleId n \<notin> set (keys (fs_cache fs))"
  shows "\<exists>fs1 fs2.
          registerStyle production u fs T = Some (styleIdentifier production T, u + 1, fs1)
          \<and> registerStyle production (u + 1) fs1 T = Some (styleIdentifier production T, u + 2, fs2)
          \<and> keys (fs_cache fs1) = keys (fs_cache fs) @ [uniqueStyleId (u + 1)]
          \<and> keys (fs_cache fs2) = keys (fs_cache fs) @ [uniqueStyleId (u + 1), uniqueStyleId (u + 2)]
          \<and> uniqueStyleId (u + 1) \<noteq> uniqueStyleId (u + 2)
          \<and> sheet (fs_cache fs2) = sheet (fs_cache fs) @ [flatRule production T, flatRule production T]
          \<and> countOf (fs_cache fs2) (uniqueStyleId (u + 1)) = 1
          \<and> countOf (fs_cache fs2) (uniqueStyleId (u + 2)) = 1
          \<and> (\<forall>n>u + 2. uniqueStyleId n \<notin> set (keys (fs_cache fs2)))"
proof -
  let ?c = "fs_cache fs"
  let ?s1 = "uniqueStyleId (u + 1)"
  let ?s2 = "uniqueStyleId (u + 2)"
  let ?st = "p_style (parseStyles T True)"
  let ?cls = "flatClass production T"
  let ?kid = "''k'' @ NUL @ ?st @ NUL @ ?cls"
  let ?n1 = "Style ?st ?s1 (selectorCache ?cls ?kid 1)"
  let ?n2 = "Style ?st ?s2 (selectorCache ?cls ?kid 1)"
  have ident: "styleIdentifier production T = key production ?st T"
    using assms(2) by (simp add: styleIdentifier_flat)
  have ne: "?s1 \<noteq> ?s2" using uniqueStyleId_inj [of "u + 1" "u + 2"] by auto
  have k1: "?s1 \<notin> set (keys ?c)" using assms(5) by simp
  let ?c1 = "Cache (sheet ?c @ [?cls @ ''{'' @ ?st @ ''}'']) (changeId ?c + 1) (keys ?c @ [?s1])
               (AList.update ?s1 ?n1 (children ?c)) (AList.update ?s1 1 (counters ?c))"
  let ?e1 = "[AddEvent ?n1 (int (length (keys ?c)))]"
  have a1: "add ?c (flatStyle production T ?s1 1) = Some (?c1, ?e1)"
    unfolding flatStyle_def by (rule add_style_first [OF assms(1) k1])
  have inv1: "cacheInv ?c1" using assms(1) a1 by (rule add_cacheInv)
  let ?fs1 = "fs\<lparr> fs_cache := ?c1, fs_changes := fs_changes fs @ ?e1 \<rparr>"
  have r1: "registerStyle production u fs T = Some (styleIdentifier production T, u + 1, ?fs1)"
    using assms(2,3,4) a1 by (simp add: registerStyle_flat ident)
  have k2: "?s2 \<notin> set (keys ?c1)" using assms(5) ne by simp
  let ?c2 = "Cache (sheet ?c1 @ [?cls @ ''{'' @ ?st @ ''}'']) (changeId ?c1 + 1) (keys ?c1 @ [?s2])
               (AList.update ?s2 ?n2 (children ?c1)) (AList.update ?s2 1 (counters ?c1))"
  let ?e2 = "[AddEvent ?n2 (int (length (keys ?c1)))]"
  have a2: "add ?c1 (flatStyle production T ?s2 1) = Some (?c2, ?e2)"
    unfolding flatStyle_def by (rule add_style_first [OF inv1 k2])
  let ?fs2 = "?fs1\<lparr> fs_cache := ?c2, fs_changes := fs_changes ?fs1 @ ?e2 \<rparr>"
  have r2: "registerStyle production (u + 1) ?fs1 T = Some (styleIdentifier production T, u + 2, ?fs2)"
    using assms(2,3,4) a2 by (simp add: registerStyle_flat ident)
  have fresh: "\<forall>n>u + 2. uniqueStyleId n \<notin> set (keys (fs_cache ?fs2))"
  proof (intro allI impI)
    fix n assume n: "u + 2 < n"
    then have "uniqueStyleId n \<notin> set (keys ?c)" using assms(5) by simp
    moreover have "uniqueStyleId n \<noteq> ?s1" "uniqueStyleId n \<noteq> ?s2"
      using n uniqueStyleId_inj [of n "u + 1"] uniqueStyleId_inj [of n "u + 2"] by auto
    ultimately show "uniqueStyleId n \<notin> set (keys (fs_cache ?fs2))" by simp
  qed
  have "keys (fs_cache ?fs1) = keys ?c @ [?s1]"
    and "keys (fs_cache ?fs2) = keys ?c @ [?s1, ?s2]"
    and "sheet (fs_cache ?fs2) = sheet ?c @ [flatRule production T, flatRule production T]"
    and "countOf (fs_cache ?fs2) ?s1 = 1"
    and "countOf (fs_cache ?fs2) ?s2 = 1"
    using ne by (simp_all add: flatRule_def update_conv')
  with r1 r2 ne fresh show ?thesis by blast
qed

text \<open>
  No reference in the cache, at any depth, to an id made from a value of the counter
  above \<open>u\<close>.
\<close>

definition deepFresh :: "nat \<Rightarrow> node cache \<Rightarrow> bool" where
  "deepFresh u c = (\<forall>n>u. deepCount c (uniqueStyleId n) = 0)"

text \<open>The unique styles of a rule of the flattened tree, at every depth, and of a tree.\<close>

fun uniqueCountRule :: "StylizeRule \<Rightarrow> nat" where
  "uniqueCountRule (StylizeRule selector style rules styles) =
     length (filter ss_isUnique styles) + sum_list (map uniqueCountRule rules)"

definition uniqueCount :: "Styles \<Rightarrow> nat" where
  "uniqueCount T =
     (case stylize ''&'' T [] [] None of
        (pid, rulesList, stylesList) \<Rightarrow>
          length (filter ss_isUnique stylesList) + sum_list (map uniqueCountRule rulesList))"

lemma uniqueCountRule_sel:
  "uniqueCountRule r =
     length (filter ss_isUnique (sr_styles r)) + sum_list (map uniqueCountRule (sr_rules r))"
  by (cases r) simp

lemma deepFresh_empty: "deepFresh u emptyCache"
  by (simp add: deepFresh_def)

lemma deepFresh_freshFrom:
  assumes "cacheInv c" and "deepFresh u c"
  shows "freshFrom u c"
  unfolding freshFrom_def
proof (intro allI impI)
  fix n assume "u < n"
  then have "deepCount c (uniqueStyleId n) = 0" using assms(2) by (simp add: deepFresh_def)
  then have "countOf c (uniqueStyleId n) = 0" by (simp add: deepCount_keys)
  then show "uniqueStyleId n \<notin> set (keys c)" using assms(1) by (simp add: cacheInv_keys)
qed

lemma deepCount_selectorCache:
  "deepCount (selectorCache k kid n) x = (if x = kid then n else 0)"
  by (simp add: deepCount_keys selectorCache_def insideOpt_def inside_def countOf_def)

text \<open>
  One \<open>add\<close> of a node that holds one reference to each id made from the counter values
  above \<open>u\<close> up to \<open>u1\<close>, and none to the others.
\<close>

lemma add_deep_step:
  assumes s: "sound c" and f: "deepFresh u c" and n: "soundNode s"
    and a: "add c s = Some (c1, e1)" and le: "u \<le> u1"
    and cnt: "\<forall>m. nodeCount s (uniqueStyleId m) = (if u < m \<and> m \<le> u1 then 1 else 0)"
  shows "sound c1 \<and> deepFresh u1 c1
     \<and> (\<forall>m. deepCount c1 (uniqueStyleId m) =
              deepCount c (uniqueStyleId m) + (if u < m \<and> m \<le> u1 then 1 else 0))"
proof -
  have d: "deepCount c1 (uniqueStyleId m) =
             deepCount c (uniqueStyleId m) + (if u < m \<and> m \<le> u1 then 1 else 0)" for m
  proof -
    have "nodeCount s (uniqueStyleId m) = 0 \<or>
          deepCount c (uniqueStyleId m) + nodeCount s (uniqueStyleId m) \<le> 1"
      using cnt f by (auto simp: deepFresh_def)
    then show ?thesis using add_deepCount [OF s n a] cnt by simp
  qed
  have "deepFresh u1 c1"
    unfolding deepFresh_def using d f le by (auto simp: deepFresh_def)
  then show ?thesis using add_sound_result [OF s n a] d by blast
qed

lemma composeStyles_deep:
  "sound c \<Longrightarrow> deepFresh u c \<Longrightarrow>
   composeStyles u c pid stylesList className isStyle = Some (u', c', e) \<Longrightarrow>
   sound c' \<and> deepFresh u' c' \<and> u' = u + length (filter ss_isUnique stylesList)
     \<and> (\<forall>m. deepCount c' (uniqueStyleId m) =
              deepCount c (uniqueStyleId m) + (if u < m \<and> m \<le> u' then 1 else 0))"
proof (induction stylesList arbitrary: u c e)
  case Nil
  then show ?case by simp
next
  case (Cons s stylesList)
  let ?k = "if isStyle then interpolate (ss_selector s) className else ss_selector s"
  let ?kid = "''k'' @ NUL @ pid @ NUL @ ?k"
  let ?u1 = "if ss_isUnique s then u + 1 else u"
  let ?ident = "if ss_isUnique s then uniqueStyleId ?u1 else ''s'' @ NUL @ pid @ NUL @ ss_style s"
  let ?n = "Style (ss_style s) ?ident (selectorCache ?k ?kid 1)"
  have step: "composeStyles u c pid (s # stylesList) className isStyle =
     (case add c ?n of
        None \<Rightarrow> None
      | Some (c1, evs1) \<Rightarrow>
          (case composeStyles ?u1 c1 pid stylesList className isStyle of
             None \<Rightarrow> None
           | Some (u2, c2, evs2) \<Rightarrow> Some (u2, c2, evs1 @ evs2)))"
    by (simp add: Let_def add_selector uniqueStyleId_def)
  from Cons.prems(3) obtain c1 e1 e2 where a: "add c ?n = Some (c1, e1)"
    and r: "composeStyles ?u1 c1 pid stylesList className isStyle = Some (u', c', e2)"
    unfolding step by (auto split: option.splits)
  have sn: "soundNode ?n"
    using nodeInv_style_selector [of "ss_style s" ?ident ?k ?kid 0]
    by (simp add: soundNode_def selectorCache_def uniqueStyleId_def)
  have k: "uniqueStyleId m \<noteq> CHR ''k'' # x" for m x by (simp add: uniqueStyleId_def)
  have i: "(uniqueStyleId (Suc u) = uniqueStyleId m) = (Suc u = m)" for m
    using uniqueStyleId_inj by auto
  have ns: "CHR ''s'' # x \<noteq> uniqueStyleId m" for m x
    by (simp add: uniqueStyleId_def)
  have cnt: "\<forall>m. nodeCount ?n (uniqueStyleId m) = (if u < m \<and> m \<le> ?u1 then 1 else 0)"
    by (cases "ss_isUnique s")
       (auto simp: nodeCount_def inside_def deepCount_selectorCache k i ns)
  have s1: "sound c1 \<and> deepFresh ?u1 c1
     \<and> (\<forall>m. deepCount c1 (uniqueStyleId m) =
              deepCount c (uniqueStyleId m) + (if u < m \<and> m \<le> ?u1 then 1 else 0))"
    by (rule add_deep_step [OF Cons.prems(1,2) sn a _ cnt]) simp
  have s2: "sound c' \<and> deepFresh u' c' \<and> u' = ?u1 + length (filter ss_isUnique stylesList)
     \<and> (\<forall>m. deepCount c' (uniqueStyleId m) =
              deepCount c1 (uniqueStyleId m) + (if ?u1 < m \<and> m \<le> u' then 1 else 0))"
    using Cons.IH [OF _ _ r] s1 by blast
  have "deepCount c' (uniqueStyleId m) =
          deepCount c (uniqueStyleId m) + (if u < m \<and> m \<le> u' then 1 else 0)" for m
    using s1 s2 by auto
  then show ?case using s2 by auto
qed

lemma composeStylize_deep:
  "sound c \<Longrightarrow> deepFresh u c \<Longrightarrow>
   composeStylize u c pid rulesList stylesList className isStyle = Some (u', c', e) \<Longrightarrow>
   sound c' \<and> deepFresh u' c'
     \<and> u' = u + length (filter ss_isUnique stylesList) + sum_list (map uniqueCountRule rulesList)
     \<and> (\<forall>m. deepCount c' (uniqueStyleId m) =
              deepCount c (uniqueStyleId m) + (if u < m \<and> m \<le> u' then 1 else 0))"
  and composeRules_deep:
  "sound c \<Longrightarrow> deepFresh u c \<Longrightarrow>
   composeRules u c pid rulesList className isStyle = Some (u', c', e) \<Longrightarrow>
   sound c' \<and> deepFresh u' c' \<and> u' = u + sum_list (map uniqueCountRule rulesList)
     \<and> (\<forall>m. deepCount c' (uniqueStyleId m) =
              deepCount c (uniqueStyleId m) + (if u < m \<and> m \<le> u' then 1 else 0))"
proof (induction u c pid rulesList stylesList className isStyle
       and u c pid rulesList className isStyle
       arbitrary: u' c' e and u' c' e rule: composeStylize_composeRules.induct)
  case (1 uniqueId c pid rulesList stylesList className isStyle)
  from "1.prems"(3) obtain u1 c1 e1 e2 where
    s: "composeStyles uniqueId c pid stylesList className isStyle = Some (u1, c1, e1)"
    and r: "composeRules u1 c1 pid rulesList className isStyle = Some (u', c', e2)"
    by (auto split: option.splits)
  have s1: "sound c1 \<and> deepFresh u1 c1 \<and> u1 = uniqueId + length (filter ss_isUnique stylesList)
     \<and> (\<forall>m. deepCount c1 (uniqueStyleId m) =
              deepCount c (uniqueStyleId m) + (if uniqueId < m \<and> m \<le> u1 then 1 else 0))"
    using composeStyles_deep [OF "1.prems"(1,2) s] .
  have s2: "sound c' \<and> deepFresh u' c' \<and> u' = u1 + sum_list (map uniqueCountRule rulesList)
     \<and> (\<forall>m. deepCount c' (uniqueStyleId m) =
              deepCount c1 (uniqueStyleId m) + (if u1 < m \<and> m \<le> u' then 1 else 0))"
    using "1.IH" [OF s refl refl _ _ r] s1 by blast
  have "deepCount c' (uniqueStyleId m) =
          deepCount c (uniqueStyleId m) + (if uniqueId < m \<and> m \<le> u' then 1 else 0)" for m
    using s1 s2 by auto
  then show ?case using s1 s2 by auto
next
  case (2 uniqueId c pid className isStyle)
  then show ?case by simp
next
  case (3 uniqueId c pid r rulesList className isStyle)
  let ?ident = "''r'' @ NUL @ pid @ NUL @ sr_selector r @ NUL @ sr_style r"
  let ?n = "\<lambda>ic. Rule (sr_selector r) (sr_style r) ?ident ic"
  from "3.prems"(3) obtain u1 ic e0 c1 e1 e2 where
    i: "composeStylize uniqueId emptyCache pid (sr_rules r) (sr_styles r) className isStyle
          = Some (u1, ic, e0)"
    and a: "add c (?n ic) = Some (c1, e1)"
    and rest: "composeRules u1 c1 pid rulesList className isStyle = Some (u', c', e2)"
    by (auto simp: Let_def split: option.splits)
  have s0: "sound ic \<and> deepFresh u1 ic
     \<and> u1 = uniqueId + length (filter ss_isUnique (sr_styles r))
              + sum_list (map uniqueCountRule (sr_rules r))
     \<and> (\<forall>m. deepCount ic (uniqueStyleId m) =
              deepCount emptyCache (uniqueStyleId m) + (if uniqueId < m \<and> m \<le> u1 then 1 else 0))"
    using "3.IH"(1) [OF refl sound_empty deepFresh_empty i] .
  have u1: "u1 = uniqueId + uniqueCountRule r" using s0 by (simp add: uniqueCountRule_sel [of r])
  have sn: "soundNode (?n ic)"
    using s0 by (simp add: soundNode_def sound_def deepInv_def kindedCache_def)
  have cnt: "\<forall>m. nodeCount (?n ic) (uniqueStyleId m) = (if uniqueId < m \<and> m \<le> u1 then 1 else 0)"
    using s0 by (simp add: nodeCount_def inside_def uniqueStyleId_def)
  have s1: "sound c1 \<and> deepFresh u1 c1
     \<and> (\<forall>m. deepCount c1 (uniqueStyleId m) =
              deepCount c (uniqueStyleId m) + (if uniqueId < m \<and> m \<le> u1 then 1 else 0))"
    by (rule add_deep_step [OF "3.prems"(1,2) sn a _ cnt]) (simp add: u1)
  have s2: "sound c' \<and> deepFresh u' c' \<and> u' = u1 + sum_list (map uniqueCountRule rulesList)
     \<and> (\<forall>m. deepCount c' (uniqueStyleId m) =
              deepCount c1 (uniqueStyleId m) + (if u1 < m \<and> m \<le> u' then 1 else 0))"
    using "3.IH"(2) [OF refl i refl refl a refl _ _ rest] s1 by blast
  have "deepCount c' (uniqueStyleId m) =
          deepCount c (uniqueStyleId m) + (if uniqueId < m \<and> m \<le> u' then 1 else 0)" for m
    using s1 s2 u1 by auto
  then show ?case using s2 u1 by auto
qed

text \<open>One registration, for the unique styles of the tree at every depth.\<close>

lemma registerStyle_deep:
  assumes s: "sound (fs_cache fs)" and f: "deepFresh u (fs_cache fs)"
  shows "\<exists>u1 fs1.
           registerStyle production u fs T = Some (styleIdentifier production T, u1, fs1)
           \<and> sound (fs_cache fs1) \<and> deepFresh u1 (fs_cache fs1) \<and> u1 = u + uniqueCount T
           \<and> (\<forall>m. deepCount (fs_cache fs1) (uniqueStyleId m) =
                    deepCount (fs_cache fs) (uniqueStyleId m)
                      + (if u < m \<and> m \<le> u1 then 1 else 0))"
proof -
  obtain pid rulesList stylesList where t: "stylize ''&'' T [] [] None = (pid, rulesList, stylesList)"
    by (cases "stylize ''&'' T [] [] None")
  define sel where "sel = ''.'' @ (if production then key production pid T
                                   else escape (key production pid T))"
  have d: "deepInv (fs_cache fs)" using s by (simp add: sound_def)
  obtain u1 fs1 where r: "registerStyle production u fs T = Some (styleIdentifier production T, u1, fs1)"
    using registerStyle_success [OF d] unfolding styleIdentifier_def by blast
  have reg: "registerStyle production u fs T =
     (case composeStylize u (fs_cache fs) pid rulesList stylesList sel True of
        None \<Rightarrow> None
      | Some (u1, c, evs) \<Rightarrow>
          Some (key production pid T, u1, fs\<lparr> fs_cache := c, fs_changes := fs_changes fs @ evs \<rparr>))"
    by (cases production)
       (simp_all add: registerStyle_def t sel_def Let_def del: composeStylize.simps
          split: option.splits)
  from r obtain e where c: "composeStylize u (fs_cache fs) pid rulesList stylesList sel True
                              = Some (u1, fs_cache fs1, e)"
    unfolding reg by (auto split: option.splits)
  note x = composeStylize_deep [OF s f c]
  have "u1 = u + uniqueCount T" using x by (simp add: uniqueCount_def t)
  then show ?thesis using r x by blast
qed

text \<open>
  The caches that hold an id as a key: the cache itself and the caches of the nodes
  stored in it, at every depth.
\<close>

function holders :: "node cache \<Rightarrow> string \<Rightarrow> node cache list" where
  "holders c k =
     (if k \<in> set (keys c) then [c] else []) @
     concat (map (\<lambda>x. case x of
                          None \<Rightarrow> []
                        | Some item \<Rightarrow>
                            (case cacheOf item of None \<Rightarrow> [] | Some ic \<Rightarrow> holders ic k))
                 (values_of c))"
  by pat_completeness auto
termination
proof (relation "measure (\<lambda>(c, k). size_cache size c)")
  show "wf (measure (\<lambda>(c, k). size_cache size c))" by simp
next
  fix c :: "node cache" and k :: string and x item ic
  assume "x \<in> set (values_of c)" and "x = Some item" and "cacheOf item = Some ic"
  then have "size_cache size ic < size_cache size c"
    using values_of_size [of item c] cacheOf_size [of item ic] by simp
  then show "((ic, k), (c, k)) \<in> measure (\<lambda>(c, k). size_cache size c)" by simp
qed

declare holders.simps [simp del]

lemma sum_list_map_concat:
  "sum_list (map f (concat (map g xs))) = sum_list (map (\<lambda>x. sum_list (map f (g x))) xs)"
  by (induction xs) simp_all

text \<open>
  In a well-formed cache the references to an id are the reference counts of the id in
  the caches that hold it, and each of these caches satisfies the invariant.
\<close>

lemma holders_count:
  "deepInv c \<Longrightarrow>
   deepCount c k = sum_list (map (\<lambda>d. countOf d k) (holders c k))
   \<and> (\<forall>d \<in> set (holders c k). cacheInv d \<and> k \<in> set (keys d))"
proof (induction c k rule: deepCount.induct)
  case (1 c k)
  let ?f = "\<lambda>x. case x of None \<Rightarrow> 0
              | Some item \<Rightarrow> (case cacheOf item of None \<Rightarrow> 0 | Some ic \<Rightarrow> deepCount ic k)"
  let ?g = "\<lambda>x. case x of None \<Rightarrow> []
              | Some item \<Rightarrow> (case cacheOf item of None \<Rightarrow> [] | Some ic \<Rightarrow> holders ic k)"
  have inv: "cacheInv c" using "1.prems" by (rule deepInv_cacheInv)
  have ih: "?f x = sum_list (map (\<lambda>d. countOf d k) (?g x))
            \<and> (\<forall>d \<in> set (?g x). cacheInv d \<and> k \<in> set (keys d))"
    if x: "x \<in> set (values_of c)" for x
  proof -
    obtain item where it: "x = Some item" and ni: "nodeInv item"
      using deepInv_values [OF "1.prems" x] by blast
    show ?thesis
    proof (cases "cacheOf item")
      case None
      then show ?thesis using it by simp
    next
      case (Some ic)
      have "deepInv ic" using ni Some by (rule nodeInv_cacheOf)
      then show ?thesis using "1.IH" [OF x it Some] it Some by simp
    qed
  qed
  have own: "sum_list (map (\<lambda>d. countOf d k) (if k \<in> set (keys c) then [c] else [])) = countOf c k"
    using cacheInv_keys [OF inv, of k] by auto
  have "sum_list (map ?f (values_of c)) =
        sum_list (map (\<lambda>x. sum_list (map (\<lambda>d. countOf d k) (?g x))) (values_of c))"
    by (rule arg_cong [where f = sum_list], rule map_cong) (simp_all add: ih)
  also have "\<dots> = sum_list (map (\<lambda>d. countOf d k) (concat (map ?g (values_of c))))"
    by (simp add: sum_list_map_concat)
  finally have s: "sum_list (map ?f (values_of c)) =
                   sum_list (map (\<lambda>d. countOf d k) (concat (map ?g (values_of c))))" .
  have a: "deepCount c k = sum_list (map (\<lambda>d. countOf d k) (holders c k))"
    by (subst deepCount.simps, subst holders.simps) (simp only: map_append sum_list.append own s)
  have b: "\<forall>d \<in> set (holders c k). cacheInv d \<and> k \<in> set (keys d)"
    by (subst holders.simps) (use inv ih in auto)
  from a b show ?case ..
qed

lemma sum_list_one:
  assumes "sum_list (map f xs) = (1::nat)" and "\<forall>x \<in> set xs. f x \<noteq> 0"
  shows "\<exists>x. xs = [x] \<and> f x = 1"
proof (cases xs)
  case Nil
  then show ?thesis using assms(1) by simp
next
  case (Cons x ys)
  have "f x \<noteq> 0" using assms(2) Cons by simp
  moreover have "f x + sum_list (map f ys) = 1" using assms(1) Cons by simp
  ultimately have "f x = 1" and z: "sum_list (map f ys) = 0" by arith+
  have "ys = []"
  proof (cases ys)
    case Nil
    then show ?thesis .
  next
    case (Cons y zs)
    then have "f y \<noteq> 0" using assms(2) \<open>xs = x # ys\<close> by simp
    then show ?thesis using z Cons by simp
  qed
  then show ?thesis using Cons \<open>f x = 1\<close> by simp
qed

text \<open>
  One reference to an id: one cache holds the id as a key, with reference count 1, and
  there it has one slot of the sheet, with the text of the node stored under it.
\<close>

lemma deepCount_once:
  assumes "deepInv c" and "deepCount c k = 1"
  shows "\<exists>d item. holders c k = [d] \<and> countOf d k = 1
           \<and> nat (indexOf (keys d) k) < length (sheet d)
           \<and> keys d ! nat (indexOf (keys d) k) = k
           \<and> map_of (children d) k = Some item \<and> nodeId item = k
           \<and> sheet d ! nat (indexOf (keys d) k) = getStyles item"
proof -
  note h = holders_count [OF assms(1), of k]
  have nz: "\<forall>d \<in> set (holders c k). countOf d k \<noteq> 0"
    using h by (auto simp: cacheInv_keys)
  have "sum_list (map (\<lambda>d. countOf d k) (holders c k)) = 1" using h assms(2) by simp
  then obtain d where d: "holders c k = [d]" and c1: "countOf d k = 1"
    using sum_list_one [of "\<lambda>d. countOf d k" "holders c k"] nz by blast
  have inv: "cacheInv d" and k: "k \<in> set (keys d)" using h d by simp_all
  obtain item where it: "map_of (children d) k = Some item" "nodeId item = k"
    "sheet d ! nat (indexOf (keys d) k) = getStyles item"
    using cacheInv_stored [OF inv k] by blast
  have len: "length (sheet d) = length (keys d)" using inv by (simp add: cacheInv_def aligned_iff)
  have "nat (indexOf (keys d) k) < length (sheet d)" "keys d ! nat (indexOf (keys d) k) = k"
    using indexOf_member [OF k] len by simp_all
  then show ?thesis using d c1 it by blast
qed

definition hoverOnlyExample :: Styles where
  "hoverOnlyExample =
     [(''$unique'', Scalar (VBoolean True)),
      (''&:hover'', Object [(''color'', Scalar (VString ''blue''))])]"

definition uniqueMediaExample :: Styles where
  "uniqueMediaExample =
     [(''$unique'', Scalar (VBoolean True)),
      (''color'', Scalar (VString ''red'')),
      (''@media print'', Object [(''$unique'', Scalar (VBoolean True)),
                                 (''color'', Scalar (VString ''blue''))])]"

text \<open>
  Claim C5, as stated: two registrations of the same content with \<open>$unique\<close> set give two
  distinct ids and two distinct entries of the sheet. It fails for a node that sets
  \<open>$unique\<close> and has no declarations of its own: \<open>stylize\<close> pushes no style for it, and
  the flag does not reach its nested nodes. The two registrations of
  \<open>{$unique: true, "&:hover": {color: "blue"}}\<close> leave the counter at its value and go
  into one entry under one id, with reference count 2.
\<close>

theorem unique_registration_counterexample:
  "p_isUnique (parseStyles hoverOnlyExample True)
   \<and> (case registerStyle False 1 (snd (create 0)) hoverOnlyExample of
        None \<Rightarrow> None
      | Some (i1, u1, fs1) \<Rightarrow>
          map_option (\<lambda>r. (i1, u1, keys (fs_cache fs1), fst r, fst (snd r),
                            keys (fs_cache (snd (snd r))), sheet (fs_cache (snd (snd r))),
                            counters (fs_cache (snd (snd r)))))
            (registerStyle False u1 fs1 hoverOnlyExample))
     = Some (''fizz77q'', 1, [''s'' @ NUL @ ''&:hovercolor:blue'' @ NUL @ ''color:blue''],
             ''fizz77q'', 1, [''s'' @ NUL @ ''&:hovercolor:blue'' @ NUL @ ''color:blue''],
             [''.fizz77q:hover{color:blue}''],
             [(''s'' @ NUL @ ''&:hovercolor:blue'' @ NUL @ ''color:blue'', 2)])"
  by (simp add: hoverOnlyExample_def eval_simps valueToBoolean.simps)

text \<open>
  Claim C5, amended. Let \<open>u\<close> be the value of the process-wide counter, and let the cache of
  the FreeStyle be well formed, with ids that tell the kinds of its nodes and without a
  reference, at any depth, to an id made from a later value of the counter (as in every
  cache that the program builds). Two registrations of the same tree return, both with
  the same class identifier. Each one advances the counter by the number of unique styles
  of the flattened tree, which are the nodes that set \<open>$unique\<close> and have declarations of
  their own, among the styles of the class and of its nested selectors and in the rules
  of its at-rules at every depth. Every such style of either registration has an id of
  its own, made from its own value of the counter: after the second registration the
  cache holds, counted over the cache and the caches of all nodes stored in it, exactly
  one reference to the id of every counter value from \<open>u + 1\<close> to the final value, that
  is, exactly one of these caches has the id among its keys, with reference count 1 and
  with one slot of its sheet, which holds the text of the node stored under the id. The
  ids of different values differ, the references to ids of earlier values stay as they
  were, and there is again no reference to an id of a later value. When the root of the
  tree has declarations and sets \<open>$unique\<close>, the first unique style of either registration
  is the Style of the class: the cache of the FreeStyle holds its two ids in two
  different slots whose text is the rule of the class, each with reference count 1; for
  a tree without nested entries these two entries are all that the registrations append.
\<close>

theorem unique_registration:
  assumes "sound (fs_cache fs)" and "deepFresh u (fs_cache fs)"
  shows "\<exists>u1 fs1 u2 fs2.
          registerStyle production u fs T = Some (styleIdentifier production T, u1, fs1)
          \<and> registerStyle production u1 fs1 T = Some (styleIdentifier production T, u2, fs2)
          \<and> u1 = u + uniqueCount T \<and> u2 = u1 + uniqueCount T
          \<and> (\<forall>m. u < m \<and> m \<le> u1 \<longrightarrow> deepCount (fs_cache fs1) (uniqueStyleId m) = 1)
          \<and> (\<forall>m. u < m \<and> m \<le> u2 \<longrightarrow> deepCount (fs_cache fs2) (uniqueStyleId m) = 1)
          \<and> (\<forall>m. u < m \<and> m \<le> u2 \<longrightarrow>
                (\<exists>d item. holders (fs_cache fs2) (uniqueStyleId m) = [d]
                   \<and> countOf d (uniqueStyleId m) = 1
                   \<and> nat (indexOf (keys d) (uniqueStyleId m)) < length (sheet d)
                   \<and> keys d ! nat (indexOf (keys d) (uniqueStyleId m)) = uniqueStyleId m
                   \<and> map_of (children d) (uniqueStyleId m) = Some item
                   \<and> nodeId item = uniqueStyleId m
                   \<and> sheet d ! nat (indexOf (keys d) (uniqueStyleId m)) = getStyles item))
          \<and> (\<forall>m. m \<le> u \<longrightarrow>
                deepCount (fs_cache fs1) (uniqueStyleId m) = deepCount (fs_cache fs) (uniqueStyleId m)
                \<and> deepCount (fs_cache fs2) (uniqueStyleId m) = deepCount (fs_cache fs) (uniqueStyleId m))
          \<and> (\<forall>m n. uniqueStyleId m = uniqueStyleId n \<longrightarrow> m = n)
          \<and> sound (fs_cache fs2) \<and> deepFresh u2 (fs_cache fs2)
          \<and> (p_style (parseStyles T True) \<noteq> [] \<and> p_isUnique (parseStyles T True) \<longrightarrow>
                u < u1 \<and> u1 < u2
                \<and> (\<exists>i j. i < length (keys (fs_cache fs2)) \<and> j < length (keys (fs_cache fs2))
                      \<and> i \<noteq> j
                      \<and> keys (fs_cache fs2) ! i = uniqueStyleId (u + 1)
                      \<and> keys (fs_cache fs2) ! j = uniqueStyleId (u1 + 1)
                      \<and> sheet (fs_cache fs2) ! i = classRule production T
                      \<and> sheet (fs_cache fs2) ! j = classRule production T)
                \<and> countOf (fs_cache fs2) (uniqueStyleId (u + 1)) = 1
                \<and> countOf (fs_cache fs2) (uniqueStyleId (u1 + 1)) = 1
                \<and> (concat (map nestedOf T) = [] \<longrightarrow>
                      u1 = u + 1 \<and> u2 = u + 2
                      \<and> keys (fs_cache fs2) =
                          keys (fs_cache fs) @ [uniqueStyleId (u + 1), uniqueStyleId (u + 2)]
                      \<and> sheet (fs_cache fs2) =
                          sheet (fs_cache fs) @ [classRule production T, classRule production T]))"
proof -
  let ?c = "fs_cache fs"
  obtain u1 fs1 where r1: "registerStyle production u fs T = Some (styleIdentifier production T, u1, fs1)"
    and s1: "sound (fs_cache fs1)" and f1: "deepFresh u1 (fs_cache fs1)"
    and n1: "u1 = u + uniqueCount T"
    and c1: "\<forall>m. deepCount (fs_cache fs1) (uniqueStyleId m) =
                    deepCount ?c (uniqueStyleId m) + (if u < m \<and> m \<le> u1 then 1 else 0)"
    using registerStyle_deep [OF assms] by blast
  obtain u2 fs2 where r2: "registerStyle production u1 fs1 T = Some (styleIdentifier production T, u2, fs2)"
    and s2: "sound (fs_cache fs2)" and f2: "deepFresh u2 (fs_cache fs2)"
    and n2: "u2 = u1 + uniqueCount T"
    and c2: "\<forall>m. deepCount (fs_cache fs2) (uniqueStyleId m) =
                    deepCount (fs_cache fs1) (uniqueStyleId m) + (if u1 < m \<and> m \<le> u2 then 1 else 0)"
    using registerStyle_deep [OF s1 f1] by blast
  have z: "deepCount ?c (uniqueStyleId m) = 0" if "u < m" for m
    using assms(2) that by (simp add: deepFresh_def)
  have a: "\<forall>m. u < m \<and> m \<le> u1 \<longrightarrow> deepCount (fs_cache fs1) (uniqueStyleId m) = 1"
    using c1 z by simp
  have b: "\<forall>m. u < m \<and> m \<le> u2 \<longrightarrow> deepCount (fs_cache fs2) (uniqueStyleId m) = 1"
  proof (intro allI impI)
    fix m assume m: "u < m \<and> m \<le> u2"
    show "deepCount (fs_cache fs2) (uniqueStyleId m) = 1"
    proof (cases "m \<le> u1")
      case True
      then show ?thesis using c1 c2 z m by simp
    next
      case False
      then show ?thesis using c1 c2 z m by simp
    qed
  qed
  have d2: "deepInv (fs_cache fs2)" using s2 by (simp add: sound_def)
  have hd: "\<forall>m. u < m \<and> m \<le> u2 \<longrightarrow>
                (\<exists>d item. holders (fs_cache fs2) (uniqueStyleId m) = [d]
                   \<and> countOf d (uniqueStyleId m) = 1
                   \<and> nat (indexOf (keys d) (uniqueStyleId m)) < length (sheet d)
                   \<and> keys d ! nat (indexOf (keys d) (uniqueStyleId m)) = uniqueStyleId m
                   \<and> map_of (children d) (uniqueStyleId m) = Some item
                   \<and> nodeId item = uniqueStyleId m
                   \<and> sheet d ! nat (indexOf (keys d) (uniqueStyleId m)) = getStyles item)"
    using b deepCount_once [OF d2] by blast
  have o: "\<forall>m. m \<le> u \<longrightarrow>
                deepCount (fs_cache fs1) (uniqueStyleId m) = deepCount ?c (uniqueStyleId m)
                \<and> deepCount (fs_cache fs2) (uniqueStyleId m) = deepCount ?c (uniqueStyleId m)"
    using c1 c2 n1 by simp
  have inj: "\<forall>m n. uniqueStyleId m = uniqueStyleId n \<longrightarrow> m = n"
    using uniqueStyleId_inj by blast
  have root: "u < u1 \<and> u1 < u2
                \<and> (\<exists>i j. i < length (keys (fs_cache fs2)) \<and> j < length (keys (fs_cache fs2))
                      \<and> i \<noteq> j
                      \<and> keys (fs_cache fs2) ! i = uniqueStyleId (u + 1)
                      \<and> keys (fs_cache fs2) ! j = uniqueStyleId (u1 + 1)
                      \<and> sheet (fs_cache fs2) ! i = classRule production T
                      \<and> sheet (fs_cache fs2) ! j = classRule production T)
                \<and> countOf (fs_cache fs2) (uniqueStyleId (u + 1)) = 1
                \<and> countOf (fs_cache fs2) (uniqueStyleId (u1 + 1)) = 1
                \<and> (concat (map nestedOf T) = [] \<longrightarrow>
                      u1 = u + 1 \<and> u2 = u + 2
                      \<and> keys (fs_cache fs2) =
                          keys ?c @ [uniqueStyleId (u + 1), uniqueStyleId (u + 2)]
                      \<and> sheet (fs_cache fs2) =
                          sheet ?c @ [classRule production T, classRule production T])"
    if h: "p_style (parseStyles T True) \<noteq> [] \<and> p_isUnique (parseStyles T True)"
  proof -
    let ?k1 = "uniqueStyleId (u + 1)"
    let ?t = "classRule production T"
    have d: "deepInv ?c" using assms(1) by (simp add: sound_def)
    have fr: "freshFrom u ?c" using deepInv_cacheInv [OF d] assms(2) by (rule deepFresh_freshFrom)
    obtain v1 gs1 where g1: "registerStyle production u fs T = Some (styleIdentifier production T, v1, gs1)"
      and l1': "u < v1" and d1': "deepInv (fs_cache gs1)" and fr1': "freshFrom v1 (fs_cache gs1)"
      and e1': "entry (fs_cache gs1) ?k1 ?t"
      using registerStyle_unique [OF d fr conjunct1 [OF h] conjunct2 [OF h]] by blast
    have eq1: "v1 = u1" "gs1 = fs1" using r1 g1 by simp_all
    have l1: "u < u1" and d1: "deepInv (fs_cache fs1)" and fr1: "freshFrom u1 (fs_cache fs1)"
      and e1: "entry (fs_cache fs1) ?k1 ?t"
      using l1' d1' fr1' e1' unfolding eq1 by simp_all
    let ?k2 = "uniqueStyleId (u1 + 1)"
    obtain v2 gs2 where g2: "registerStyle production u1 fs1 T = Some (styleIdentifier production T, v2, gs2)"
      and l2': "u1 < v2"
      and e2': "entry (fs_cache gs2) ?k2 ?t"
      and old': "\<forall>m t. m \<le> u1 \<longrightarrow> entry (fs_cache fs1) (uniqueStyleId m) t
                  \<longrightarrow> entry (fs_cache gs2) (uniqueStyleId m) t"
      using registerStyle_unique [OF d1 fr1 conjunct1 [OF h] conjunct2 [OF h]] by blast
    have eq2: "v2 = u2" "gs2 = fs2" using r2 g2 by simp_all
    have l2: "u1 < u2" and e2: "entry (fs_cache fs2) ?k2 ?t"
      and old: "\<forall>m t. m \<le> u1 \<longrightarrow> entry (fs_cache fs1) (uniqueStyleId m) t
                  \<longrightarrow> entry (fs_cache fs2) (uniqueStyleId m) t"
      using l2' e2' old' unfolding eq2 by simp_all
    have e1'': "entry (fs_cache fs2) ?k1 ?t" using old e1 l1 by simp
    have ne: "?k1 \<noteq> ?k2" using l1 uniqueStyleId_inj [of "u + 1" "u1 + 1"] by auto
    let ?i = "nat (indexOf (keys (fs_cache fs2)) ?k1)"
    let ?j = "nat (indexOf (keys (fs_cache fs2)) ?k2)"
    note t1 = entry_slot [OF e1''] and t2 = entry_slot [OF e2]
    have ij: "?i \<noteq> ?j" using t1 t2 ne by metis
    have flat: "u1 = u + 1 \<and> u2 = u + 2
                  \<and> keys (fs_cache fs2) = keys ?c @ [?k1, uniqueStyleId (u + 2)]
                  \<and> sheet (fs_cache fs2) = sheet ?c @ [?t, ?t]"
      if fl: "concat (map nestedOf T) = []"
    proof -
      have "\<forall>n>u. uniqueStyleId n \<notin> set (keys ?c)"
        using fr by (simp add: freshFrom_def)
      then obtain hs1 hs2 where
        h1: "registerStyle production u fs T = Some (styleIdentifier production T, u + 1, hs1)"
        and h2: "registerStyle production (u + 1) hs1 T = Some (styleIdentifier production T, u + 2, hs2)"
        and hk: "keys (fs_cache hs2) = keys ?c @ [?k1, uniqueStyleId (u + 2)]"
        and hs: "sheet (fs_cache hs2) = sheet ?c @ [flatRule production T, flatRule production T]"
        using registerStyle_unique_flat [OF deepInv_cacheInv [OF d] fl conjunct1 [OF h] conjunct2 [OF h]]
        by blast
      have x: "u1 = u + 1" "fs1 = hs1" using r1 h1 by simp_all
      have y: "u2 = u + 2" "fs2 = hs2" using r2 h2 x by simp_all
      show ?thesis using x y hk hs classRule_flat [OF fl] by simp
    qed
    show ?thesis using l1 l2 t1 t2 ij flat by blast
  qed
  show ?thesis
    using r1 r2 n1 n2 a b hd o inj s2 f2 root by blast
qed

theorem unique_registration_witness:
  "sound (fs_cache (snd (create 0))) \<and> deepFresh 1 (fs_cache (snd (create 0)))
   \<and> p_style (parseStyles uniqueMediaExample True) \<noteq> []
   \<and> p_isUnique (parseStyles uniqueMediaExample True)
   \<and> uniqueCount uniqueMediaExample = 2
   \<and> (\<exists>fs1 fs2 i j.
          registerStyle False 1 (snd (create 0)) uniqueMediaExample = Some (''fbaednh'', 3, fs1)
          \<and> registerStyle False 3 fs1 uniqueMediaExample = Some (''fbaednh'', 5, fs2)
          \<and> sheet (fs_cache fs2) =
               [''.fbaednh{color:red}'',
                ''@media print{.fbaednh{color:blue}.fbaednh{color:blue}}'',
                ''.fbaednh{color:red}'']
          \<and> deepCount (fs_cache fs2) (''u'' @ NUL @ ''2'') = 1
          \<and> deepCount (fs_cache fs2) (''u'' @ NUL @ ''3'') = 1
          \<and> deepCount (fs_cache fs2) (''u'' @ NUL @ ''4'') = 1
          \<and> deepCount (fs_cache fs2) (''u'' @ NUL @ ''5'') = 1
          \<and> i \<noteq> j
          \<and> keys (fs_cache fs2) ! i = ''u'' @ NUL @ ''2''
          \<and> keys (fs_cache fs2) ! j = ''u'' @ NUL @ ''4''
          \<and> sheet (fs_cache fs2) ! i = ''.fbaednh{color:red}''
          \<and> sheet (fs_cache fs2) ! j = ''.fbaednh{color:red}'')"
proof -
  have d: "sound (fs_cache (snd (create 0)))"
    using sound_empty by (simp add: create_def)
  have f: "deepFresh 1 (fs_cache (snd (create 0)))"
    using deepFresh_empty by (simp add: create_def)
  have p: "p_style (parseStyles uniqueMediaExample True) = ''color:red''"
    "p_isUnique (parseStyles uniqueMediaExample True)"
    by (simp_all add: uniqueMediaExample_def eval_simps)
  have p1: "p_style (parseStyles uniqueMediaExample True) \<noteq> []" using p(1) by simp
  have n: "uniqueCount uniqueMediaExample = 2"
    by (simp add: uniqueCount_def uniqueMediaExample_def eval_simps valueToBoolean.simps)
  have m: "(case registerStyle False 1 (snd (create 0)) uniqueMediaExample of
              None \<Rightarrow> None
            | Some (i1, u1, fs1) \<Rightarrow>
                map_option (\<lambda>r. (i1, fst r, sheet (fs_cache (snd (snd r)))))
                  (registerStyle False u1 fs1 uniqueMediaExample))
           = Some (''fbaednh'', ''fbaednh'',
                   [''.fbaednh{color:red}'',
                    ''@media print{.fbaednh{color:blue}.fbaednh{color:blue}}'',
                    ''.fbaednh{color:red}''])"
    by (simp add: uniqueMediaExample_def eval_simps valueToBoolean.simps)
  from unique_registration [OF d f, of False uniqueMediaExample] p1 p(2)
  obtain u1 fs1 u2 fs2 i j where
    r1: "registerStyle False 1 (snd (create 0)) uniqueMediaExample
           = Some (styleIdentifier False uniqueMediaExample, u1, fs1)"
    and r2: "registerStyle False u1 fs1 uniqueMediaExample
           = Some (styleIdentifier False uniqueMediaExample, u2, fs2)"
    and u1: "u1 = 1 + uniqueCount uniqueMediaExample" and u2: "u2 = u1 + uniqueCount uniqueMediaExample"
    and c: "\<forall>m. 1 < m \<and> m \<le> u2 \<longrightarrow> deepCount (fs_cache fs2) (uniqueStyleId m) = 1"
    and ij: "i \<noteq> j"
    and ki: "keys (fs_cache fs2) ! i = uniqueStyleId (1 + 1)"
    and kj: "keys (fs_cache fs2) ! j = uniqueStyleId (u1 + 1)"
    and si: "sheet (fs_cache fs2) ! i = classRule False uniqueMediaExample"
    and sj: "sheet (fs_cache fs2) ! j = classRule False uniqueMediaExample"
    by blast
  have w: "u1 = 3" "u2 = 5" using u1 u2 n by simp_all
  have v: "styleIdentifier False uniqueMediaExample = ''fbaednh''"
    "sheet (fs_cache fs2) =
       [''.fbaednh{color:red}'',
        ''@media print{.fbaednh{color:blue}.fbaednh{color:blue}}'',
        ''.fbaednh{color:red}'']"
    using m unfolding r1 option.case prod.case r2 by simp_all
  have cr: "classRule False uniqueMediaExample = ''.fbaednh{color:red}''"
    by (simp add: classRule_def classSelector_def v(1) p(1) escape_def escapeChars_def)
  have k: "uniqueStyleId 2 = ''u'' @ NUL @ ''2''" "uniqueStyleId 3 = ''u'' @ NUL @ ''3''"
    "uniqueStyleId 4 = ''u'' @ NUL @ ''4''" "uniqueStyleId 5 = ''u'' @ NUL @ ''5''"
    by (simp_all add: uniqueStyleId_def toString36.simps digit36_def)
  have c': "deepCount (fs_cache fs2) (uniqueStyleId 2) = 1"
    "deepCount (fs_cache fs2) (uniqueStyleId 3) = 1"
    "deepCount (fs_cache fs2) (uniqueStyleId 4) = 1"
    "deepCount (fs_cache fs2) (uniqueStyleId 5) = 1"
    using c w by simp_all
  have nm: "(1::nat) + 1 = 2" "(3::nat) + 1 = 4" by simp_all
  have ki': "keys (fs_cache fs2) ! i = uniqueStyleId 2" using ki unfolding nm .
  have kj': "keys (fs_cache fs2) ! j = uniqueStyleId 4" using kj unfolding w nm .
  have "\<exists>fs1 fs2 i j.
          registerStyle False 1 (snd (create 0)) uniqueMediaExample = Some (''fbaednh'', 3, fs1)
          \<and> registerStyle False 3 fs1 uniqueMediaExample = Some (''fbaednh'', 5, fs2)
          \<and> sheet (fs_cache fs2) =
               [''.fbaednh{color:red}'',
                ''@media print{.fbaednh{color:blue}.fbaednh{color:blue}}'',
                ''.fbaednh{color:red}'']
          \<and> deepCount (fs_cache fs2) (''u'' @ NUL @ ''2'') = 1
          \<and> deepCount (fs_cache fs2) (''u'' @ NUL @ ''3'') = 1
          \<and> deepCount (fs_cache fs2) (''u'' @ NUL @ ''4'') = 1
          \<and> deepCount (fs_cache fs2) (''u'' @ NUL @ ''5'') = 1
          \<and> i \<noteq> j
          \<and> keys (fs_cache fs2) ! i = ''u'' @ NUL @ ''2''
          \<and> keys (fs_cache fs2) ! j = ''u'' @ NUL @ ''4''
          \<and> sheet (fs_cache fs2) ! i = ''.fbaednh{color:red}''
          \<and> sheet (fs_cache fs2) ! j = ''.fbaednh{color:red}''"
    using r1 r2 ij ki' kj' si sj v(2) c' unfolding v(1) w cr k by blast
  with d f p1 p(2) n show ?thesis by (intro conjI)
qed

end
